theory Spec2Isabelle
  imports Main
begin

section \<open>Strings and arrays of the host language\<close>

text \<open>
  The background script compares URLs as strings and takes host names apart with
  \<^verbatim>\<open>split('.')\<close>, \<^verbatim>\<open>slice(-2)\<close> and \<^verbatim>\<open>join('.')\<close>. These three
  built-ins are modelled on character lists.
\<close>

text \<open>\<^verbatim>\<open>s.split(sep)\<close> for a one-character separator: the pieces between the
  separators, in order; the empty string gives one empty piece.\<close>

fun js_split :: "char \<Rightarrow> string \<Rightarrow> string list" where
  "js_split sep [] = [[]]"
| "js_split sep (c # cs) =
     (if c = sep then [] # js_split sep cs
      else (c # hd (js_split sep cs)) # tl (js_split sep cs))"

text \<open>\<^verbatim>\<open>parts.join(sep)\<close>.\<close>

fun js_join :: "char \<Rightarrow> string list \<Rightarrow> string" where
  "js_join sep [] = []"
| "js_join sep [p] = p"
| "js_join sep (p # q # ps) = p @ sep # js_join sep (q # ps)"

text \<open>\<^verbatim>\<open>parts.slice(-2)\<close>: the last two elements, or all of them when there are
  fewer than two.\<close>

definition js_slice_last2 :: "'a list \<Rightarrow> 'a list" where
  "js_slice_last2 xs = drop (length xs - 2) xs"

section \<open>The URL objects of the host\<close>

text \<open>
  \<^verbatim>\<open>new URL(s)\<close> is the host's URL parser. The script reads two fields of the
  object it returns, \<^verbatim>\<open>protocol\<close> and \<^verbatim>\<open>hostname\<close>, and catches the
  \<^verbatim>\<open>TypeError\<close> it throws on a string that is not a URL. The parser is a
  parameter of the model: a function from strings to \<open>URL option\<close>, with \<open>None\<close> for
  the thrown error. Every general theorem below holds for every such function.
\<close>

record URL =
  protocol :: string
  hostname :: string

type_synonym url_parser = "string \<Rightarrow> URL option"

text \<open>
  For the concrete URLs of the examples a parser is needed that can be evaluated.
  \<open>URL_simple\<close> is the host's parser on the strings
  \<^verbatim>\<open>http://host\<close>, \<^verbatim>\<open>https://host\<close> and these followed by \<^verbatim>\<open>/\<close> and any path,
  where \<^verbatim>\<open>host\<close> is made of non-empty labels of lower-case ASCII letters,
  separated by single dots. On such a string the URL Standard gives the scheme
  followed by a colon as the protocol and \<^verbatim>\<open>host\<close>, unchanged, as the host name.
  On every other string \<open>URL_simple\<close> answers \<open>None\<close>; that is a limit of this
  evaluable fragment and says nothing about the host's parser, so \<open>URL_simple\<close> is used
  at concrete URLs of the shape above only.
\<close>

definition lower_alpha :: "char \<Rightarrow> bool" where
  "lower_alpha c = (c \<in> set ''abcdefghijklmnopqrstuvwxyz'')"

definition simple_host :: "string \<Rightarrow> bool" where
  "simple_host h = list_all (\<lambda>l. l \<noteq> [] \<and> list_all lower_alpha l) (js_split CHR ''.'' h)"

definition after_prefix :: "string \<Rightarrow> string \<Rightarrow> string option" where
  "after_prefix p s = (if take (length p) s = p then Some (drop (length p) s) else None)"

definition URL_simple :: url_parser where
  "URL_simple s =
     (case after_prefix ''https://'' s of
        Some r \<Rightarrow>
          (let h = takeWhile (\<lambda>c. c \<noteq> CHR ''/'') r in
           if simple_host h then Some \<lparr>protocol = ''https:'', hostname = h\<rparr> else None)
      | None \<Rightarrow>
          (case after_prefix ''http://'' s of
             Some r \<Rightarrow>
               (let h = takeWhile (\<lambda>c. c \<noteq> CHR ''/'') r in
                if simple_host h then Some \<lparr>protocol = ''http:'', hostname = h\<rparr> else None)
           | None \<Rightarrow> None))"

section \<open>Domain comparison and the diversion decision\<close>

text \<open>
  \<^verbatim>\<open>getBaseDomain\<close>, the arrow function inside \<^verbatim>\<open>isDifferentDomain\<close>:
  \<^verbatim>\<open>parts.length > 2 ? parts.slice(-2).join('.') : hostname\<close>.
\<close>

definition getBaseDomain :: "string \<Rightarrow> string" where
  "getBaseDomain h =
     (let parts = js_split CHR ''.'' h in
      if length parts > 2 then js_join CHR ''.'' (js_slice_last2 parts) else h)"

text \<open>
  The registrable domain in the words of the specification's glossary: the last two
  dot-separated labels of a host name. It is compared with \<open>getBaseDomain\<close> in
  \<open>getBaseDomain_registrable\<close>.
\<close>

definition registrableDomain :: "string \<Rightarrow> string" where
  "registrableDomain h = js_join CHR ''.'' (js_slice_last2 (js_split CHR ''.'' h))"

text \<open>
  \<^verbatim>\<open>isDifferentDomain\<close>. The body of its \<^verbatim>\<open>try\<close> block either throws (the
  \<^verbatim>\<open>TypeError\<close> of \<^verbatim>\<open>new URL\<close>, \<open>Inl\<close>) or returns a boolean (\<open>Inr\<close>); the two
  constructor calls run in the order of the source, so the first failure is the one
  thrown. The \<^verbatim>\<open>catch\<close> block logs and returns \<^verbatim>\<open>true\<close>.
\<close>

datatype js_error = TypeError string

definition privileged :: "string \<Rightarrow> bool" where
  "privileged proto =
     (proto = ''about:'' \<or> proto = ''chrome:'' \<or> proto = ''moz-extension:'')"

definition isDifferentDomain_try :: "url_parser \<Rightarrow> string \<Rightarrow> string \<Rightarrow> js_error + bool" where
  "isDifferentDomain_try parse url1 url2 =
     (case parse url1 of
        None \<Rightarrow> Inl (TypeError url1)
      | Some domain1 \<Rightarrow>
          (case parse url2 of
             None \<Rightarrow> Inl (TypeError url2)
           | Some domain2 \<Rightarrow>
               if protocol domain1 = ''about:'' \<or> protocol domain2 = ''about:'' \<or>
                  protocol domain1 = ''chrome:'' \<or> protocol domain2 = ''chrome:'' \<or>
                  protocol domain1 = ''moz-extension:'' \<or> protocol domain2 = ''moz-extension:''
               then Inr True
               else Inr (getBaseDomain (hostname domain1) \<noteq> getBaseDomain (hostname domain2))))"

definition isDifferentDomain :: "url_parser \<Rightarrow> string \<Rightarrow> string \<Rightarrow> bool" where
  "isDifferentDomain parse url1 url2 =
     (case isDifferentDomain_try parse url1 url2 of
        Inl e \<Rightarrow> True
      | Inr r \<Rightarrow> r)"

text \<open>
  \<^verbatim>\<open>shouldOpenInNewTab\<close>. The global \<^verbatim>\<open>linkBehavior\<close> it reads is a string; it is
  passed as an argument.
\<close>

definition shouldOpenInNewTab :: "url_parser \<Rightarrow> string \<Rightarrow> string \<Rightarrow> string \<Rightarrow> bool" where
  "shouldOpenInNewTab parse linkBehavior currentUrl newUrl =
     (if currentUrl = newUrl then False
      else if linkBehavior = ''all-links'' then True
      else isDifferentDomain parse currentUrl newUrl)"

section \<open>The state of the background script\<close>

text \<open>
  The three \<^verbatim>\<open>Map\<close> objects of the script are lists of key-value pairs in
  insertion order, as \<^verbatim>\<open>Array.from(map.entries())\<close> lists them: \<^verbatim>\<open>set\<close> on a
  key that is present replaces the value in place, on a new key it appends;
  \<^verbatim>\<open>delete\<close> removes the pair.
\<close>

fun Map_set :: "'k \<Rightarrow> 'v \<Rightarrow> ('k \<times> 'v) list \<Rightarrow> ('k \<times> 'v) list" where
  "Map_set k v [] = [(k, v)]"
| "Map_set k v ((k', v') # m) = (if k' = k then (k, v) # m else (k', v') # Map_set k v m)"

definition Map_delete :: "'k \<Rightarrow> ('k \<times> 'v) list \<Rightarrow> ('k \<times> 'v) list" where
  "Map_delete k m = filter (\<lambda>e. fst e \<noteq> k) m"

definition Map_get :: "'k \<Rightarrow> ('k \<times> 'v) list \<Rightarrow> 'v option" where
  "Map_get k m = map_of m k"

definition Map_has :: "'k \<Rightarrow> ('k \<times> 'v) list \<Rightarrow> bool" where
  "Map_has k m = (map_of m k \<noteq> None)"

text \<open>
  A tab record of the host, the \<^verbatim>\<open>changeInfo\<close> of an update notification (a field
  that is absent is \<open>None\<close>) and the \<^verbatim>\<open>details\<close> of a pre-navigation event. A URL
  the host leaves out is the empty string, which the script's truthiness tests treat like
  a missing one.
\<close>

record tab =
  tab_id :: int
  tab_url :: string
  tab_pinned :: bool
  tab_index :: int

record changeInfo =
  ci_pinned :: "bool option"
  ci_url :: "string option"

record details =
  d_tabId :: int
  d_frameId :: int
  d_url :: string

record attempt =
  timestamp :: int
  originalUrl :: string

text \<open>
  The globals of the script. \<^verbatim>\<open>navigationLocks\<close> is keyed by the string
  \<^verbatim>\<open>nav_${tabId}\<close>, which determines the tab id; the model keys it by the tab id.
\<close>

record ext_state =
  debugMode :: bool
  linkBehavior :: string
  pinnedTabs :: "(int \<times> string) list"
  navigationLocks :: "(int \<times> bool) list"
  lastNavigationAttempts :: "(int \<times> attempt) list"

text \<open>
  The keys of \<^verbatim>\<open>browser.storage.local\<close> that the script reads. The fourth key,
  \<^verbatim>\<open>debugLogs\<close>, is written by \<^verbatim>\<open>debugLog\<close> and read by the settings page only;
  \<^verbatim>\<open>debugLog\<close> changes nothing else and returns nothing, so its calls are left out.
\<close>

record store =
  stored_debugMode :: "bool option"
  stored_linkBehavior :: "string option"
  stored_pinnedUrls :: "(int \<times> string) list option"

text \<open>A promise of the host is fulfilled with a value or rejected; an \<^verbatim>\<open>await\<close> on a
  rejected promise throws.\<close>

datatype 'a reply = Resolved 'a | Rejected

text \<open>How a listener without a \<^verbatim>\<open>try\<close> of its own ends: it returns, or the
  rejection of an awaited promise leaves it.\<close>

datatype completion = Returned | Threw

section \<open>The pinned-tab registry\<close>

text \<open>\<^verbatim>\<open>savePinnedTabs\<close>: the whole map is written under \<^verbatim>\<open>pinnedUrls\<close>. The
  boolean says whether the host commits the write.\<close>

definition savePinnedTabs :: "bool \<Rightarrow> ext_state \<Rightarrow> store \<Rightarrow> store reply" where
  "savePinnedTabs ok st sto =
     (let pinnedUrls = pinnedTabs st in
      if ok then Resolved (sto\<lparr>stored_pinnedUrls := Some pinnedUrls\<rparr>) else Rejected)"

text \<open>The body of the \<^verbatim>\<open>for\<close> loop of \<^verbatim>\<open>initializeExtension\<close>.\<close>

definition add_pinned :: "(int \<times> string) list \<Rightarrow> tab \<Rightarrow> (int \<times> string) list" where
  "add_pinned m t =
     (if tab_url t \<noteq> [] \<and> tab_url t \<noteq> ''about:blank''
      then Map_set (tab_id t) (tab_url t) m else m)"

text \<open>
  \<^verbatim>\<open>initializeExtension\<close>. Its arguments are what the host answers to the three
  calls it awaits: whether \<^verbatim>\<open>storage.local.get\<close> is fulfilled (with the store's
  contents), the reply to \<^verbatim>\<open>tabs.query({pinned: true})\<close>, whether
  \<^verbatim>\<open>storage.local.set\<close> commits. The \<^verbatim>\<open>try\<close> encloses the whole body and the
  \<^verbatim>\<open>catch\<close> only logs, so a rejection ends the function with the state reached so far.
\<close>

definition initializeExtension ::
  "bool \<Rightarrow> tab list reply \<Rightarrow> bool \<Rightarrow> ext_state \<Rightarrow> store \<Rightarrow> ext_state \<times> store" where
  "initializeExtension get_ok queried set_ok st sto =
     (if \<not> get_ok then (st, sto)
      else
        let st1 = st\<lparr>debugMode := (case stored_debugMode sto of Some b \<Rightarrow> b | None \<Rightarrow> False),
                     linkBehavior :=
                       (case stored_linkBehavior sto of
                          Some l \<Rightarrow> if l = [] then ''different-domains'' else l
                        | None \<Rightarrow> ''different-domains'')\<rparr>
        in case queried of
             Rejected \<Rightarrow> (st1, sto)
           | Resolved pinnedTabsList \<Rightarrow>
               let st2 = st1\<lparr>pinnedTabs := foldl add_pinned [] pinnedTabsList\<rparr>
               in (case savePinnedTabs set_ok st2 sto of
                     Rejected \<Rightarrow> (st2, sto)
                   | Resolved sto' \<Rightarrow> (st2, sto')))"

text \<open>
  The \<^verbatim>\<open>tabs.onUpdated\<close> listener, one definition for each of its two \<^verbatim>\<open>if\<close>
  statements. The listener has no \<^verbatim>\<open>try\<close>: when the first write is rejected the
  second statement is not reached.
\<close>

definition onUpdated_pinned ::
  "bool \<Rightarrow> ext_state \<Rightarrow> store \<Rightarrow> int \<Rightarrow> changeInfo \<Rightarrow> tab \<Rightarrow> ext_state \<times> store \<times> completion" where
  "onUpdated_pinned ok st sto tabId ci t =
     (case ci_pinned ci of
        None \<Rightarrow> (st, sto, Returned)
      | Some pinned \<Rightarrow>
          let st' = st\<lparr>pinnedTabs :=
                      (if pinned \<and> tab_url t \<noteq> ''about:blank''
                       then Map_set tabId (tab_url t) (pinnedTabs st)
                       else Map_delete tabId (pinnedTabs st))\<rparr>
          in (case savePinnedTabs ok st' sto of
                Rejected \<Rightarrow> (st', sto, Threw)
              | Resolved sto' \<Rightarrow> (st', sto', Returned)))"

definition onUpdated_url ::
  "bool \<Rightarrow> ext_state \<Rightarrow> store \<Rightarrow> int \<Rightarrow> changeInfo \<Rightarrow> tab \<Rightarrow> ext_state \<times> store \<times> completion" where
  "onUpdated_url ok st sto tabId ci t =
     (if (case ci_url ci of None \<Rightarrow> False | Some u \<Rightarrow> u \<noteq> []) \<and>
         tab_pinned t \<and> tab_url t \<noteq> ''about:blank''
      then
        let st' = st\<lparr>pinnedTabs := Map_set tabId (tab_url t) (pinnedTabs st)\<rparr>
        in (case savePinnedTabs ok st' sto of
              Rejected \<Rightarrow> (st', sto, Threw)
            | Resolved sto' \<Rightarrow> (st', sto', Returned))
      else (st, sto, Returned))"

definition onUpdated ::
  "bool \<Rightarrow> bool \<Rightarrow> ext_state \<Rightarrow> store \<Rightarrow> int \<Rightarrow> changeInfo \<Rightarrow> tab \<Rightarrow> ext_state \<times> store \<times> completion" where
  "onUpdated ok1 ok2 st sto tabId ci t =
     (case onUpdated_pinned ok1 st sto tabId ci t of
        (st1, sto1, Threw) \<Rightarrow> (st1, sto1, Threw)
      | (st1, sto1, Returned) \<Rightarrow> onUpdated_url ok2 st1 sto1 tabId ci t)"

text \<open>The \<^verbatim>\<open>tabs.onRemoved\<close> listener.\<close>

definition onRemoved :: "bool \<Rightarrow> ext_state \<Rightarrow> store \<Rightarrow> int \<Rightarrow> ext_state \<times> store \<times> completion" where
  "onRemoved ok st sto tabId =
     (if Map_has tabId (pinnedTabs st) then
        let st' = st\<lparr>pinnedTabs := Map_delete tabId (pinnedTabs st),
                     lastNavigationAttempts := Map_delete tabId (lastNavigationAttempts st),
                     navigationLocks := Map_delete tabId (navigationLocks st)\<rparr>
        in (case savePinnedTabs ok st' sto of
              Rejected \<Rightarrow> (st', sto, Threw)
            | Resolved sto' \<Rightarrow> (st', sto', Returned))
      else (st, sto, Returned))"

text \<open>The callback of the settings load at the top of the script.\<close>

definition loadSettings :: "ext_state \<Rightarrow> store \<Rightarrow> ext_state" where
  "loadSettings st sto =
     st\<lparr>debugMode := (case stored_debugMode sto of Some b \<Rightarrow> b | None \<Rightarrow> False),
        linkBehavior :=
          (case stored_linkBehavior sto of
             Some l \<Rightarrow> if l = [] then ''different-domains'' else l
           | None \<Rightarrow> ''different-domains'')\<rparr>"

text \<open>The \<^verbatim>\<open>storage.onChanged\<close> listener; a key that did not change is \<open>None\<close>.\<close>

definition onStorageChanged ::
  "ext_state \<Rightarrow> string \<Rightarrow> bool option \<Rightarrow> string option \<Rightarrow> ext_state" where
  "onStorageChanged st area new_debugMode new_linkBehavior =
     (if area = ''local'' then
        let st1 = (case new_debugMode of None \<Rightarrow> st | Some b \<Rightarrow> st\<lparr>debugMode := b\<rparr>)
        in (case new_linkBehavior of None \<Rightarrow> st1 | Some l \<Rightarrow> st1\<lparr>linkBehavior := l\<rparr>)
      else st)"

section \<open>The navigation interceptor\<close>

text \<open>
  The \<^verbatim>\<open>webNavigation.onBeforeNavigate\<close> listener is an \<^verbatim>\<open>async\<close> function: it
  runs without interruption up to an \<^verbatim>\<open>await\<close>, where it is suspended until the host
  answers, and other listeners run in between. Each stretch between two suspension
  points is one function of the model, from the state the stretch finds to the state it
  leaves, and the point it stops at. A suspended invocation is the \<^verbatim>\<open>await\<close> it
  waits at, with the local variables that the rest of the listener reads:
  \<^verbatim>\<open>details\<close>, \<^verbatim>\<open>currentUrl\<close> and, for the call of \<^verbatim>\<open>tabs.create\<close>, the index
  \<^verbatim>\<open>tab.index + 1\<close>.
\<close>

datatype suspended =
    AwaitGet details
  | AwaitCreate details string int
  | AwaitSettle details string
  | AwaitUpdate details string
  | AwaitBackoff details string
  | AwaitRetry details string

datatype outcome = Finished | Suspended suspended

text \<open>The call of the host API that a suspended invocation waits for.\<close>

datatype host_call =
    TabsGet int
  | TabsCreate string int
  | SetTimeout nat
  | TabsUpdate int string

fun call_of :: "suspended \<Rightarrow> host_call" where
  "call_of (AwaitGet d) = TabsGet (d_tabId d)"
| "call_of (AwaitCreate d currentUrl i) = TabsCreate (d_url d) i"
| "call_of (AwaitSettle d currentUrl) = SetTimeout 100"
| "call_of (AwaitUpdate d currentUrl) = TabsUpdate (d_tabId d) currentUrl"
| "call_of (AwaitBackoff d currentUrl) = SetTimeout 50"
| "call_of (AwaitRetry d currentUrl) = TabsUpdate (d_tabId d) currentUrl"

fun details_of :: "suspended \<Rightarrow> details" where
  "details_of (AwaitGet d) = d"
| "details_of (AwaitCreate d currentUrl i) = d"
| "details_of (AwaitSettle d currentUrl) = d"
| "details_of (AwaitUpdate d currentUrl) = d"
| "details_of (AwaitBackoff d currentUrl) = d"
| "details_of (AwaitRetry d currentUrl) = d"

text \<open>\<^verbatim>\<open>navigationLocks.get(lockKey)\<close> is truthy.\<close>

definition locked :: "ext_state \<Rightarrow> int \<Rightarrow> bool" where
  "locked st tabId = (Map_get tabId (navigationLocks st) = Some True)"

text \<open>The \<^verbatim>\<open>finally\<close> block. It runs on every way out of the \<^verbatim>\<open>try\<close>
  statement: a \<^verbatim>\<open>return\<close> inside it, its normal end, and the \<^verbatim>\<open>catch\<close>.\<close>

definition release :: "int \<Rightarrow> ext_state \<Rightarrow> ext_state" where
  "release tabId st = st\<lparr>navigationLocks := Map_delete tabId (navigationLocks st)\<rparr>"

text \<open>From the start of the listener to \<^verbatim>\<open>await browser.tabs.get\<close>. The lock check
  returns before the \<^verbatim>\<open>try\<close> statement is entered.\<close>

definition nav_enter :: "ext_state \<Rightarrow> details \<Rightarrow> ext_state \<times> outcome" where
  "nav_enter st d =
     (if locked st (d_tabId d) then (st, Finished)
      else
        let st1 = st\<lparr>navigationLocks := Map_set (d_tabId d) True (navigationLocks st)\<rparr>
        in if d_frameId d \<noteq> 0 \<or> \<not> Map_has (d_tabId d) (pinnedTabs st1)
           then (release (d_tabId d) st1, Finished)
           else (st1, Suspended (AwaitGet d)))"

text \<open>
  From the answer of \<^verbatim>\<open>tabs.get\<close> to \<^verbatim>\<open>await browser.tabs.create\<close>:
  the liveness check, the echo suppression, the decision and the record of the attempt.
  \<open>now\<close> is the value of \<^verbatim>\<open>Date.now()\<close>.
\<close>

definition nav_got ::
  "url_parser \<Rightarrow> ext_state \<Rightarrow> details \<Rightarrow> tab option reply \<Rightarrow> int \<Rightarrow> ext_state \<times> outcome" where
  "nav_got parse st d got now =
     (case got of
        Rejected \<Rightarrow> (release (d_tabId d) st, Finished)
      | Resolved None \<Rightarrow> (release (d_tabId d) st, Finished)
      | Resolved (Some t) \<Rightarrow>
          if \<not> tab_pinned t \<or> tab_url t = [] then (release (d_tabId d) st, Finished)
          else
            let currentUrl =
                  (case Map_get (d_tabId d) (pinnedTabs st) of
                     Some u \<Rightarrow> if u \<noteq> [] then u else tab_url t
                   | None \<Rightarrow> tab_url t);
                newUrl = d_url d;
                lastAttempt = Map_get (d_tabId d) (lastNavigationAttempts st)
            in if (case lastAttempt of
                     None \<Rightarrow> False
                   | Some a \<Rightarrow> now - timestamp a < 1000 \<and> newUrl = originalUrl a)
               then (release (d_tabId d) st, Finished)
               else if \<not> shouldOpenInNewTab parse (linkBehavior st) currentUrl newUrl
               then (release (d_tabId d) st, Finished)
               else
                 (st\<lparr>lastNavigationAttempts :=
                       Map_set (d_tabId d) \<lparr>timestamp = now, originalUrl = currentUrl\<rparr>
                         (lastNavigationAttempts st)\<rparr>,
                  Suspended (AwaitCreate d currentUrl (tab_index t + 1))))"

text \<open>From the answer of \<^verbatim>\<open>tabs.create\<close> to the 100 ms timer.\<close>

definition nav_created ::
  "ext_state \<Rightarrow> details \<Rightarrow> string \<Rightarrow> tab reply \<Rightarrow> ext_state \<times> outcome" where
  "nav_created st d currentUrl created =
     (case created of
        Rejected \<Rightarrow> (release (d_tabId d) st, Finished)
      | Resolved newTab \<Rightarrow> (st, Suspended (AwaitSettle d currentUrl)))"

text \<open>From the timer to \<^verbatim>\<open>await browser.tabs.update\<close>.\<close>

definition nav_settled :: "ext_state \<Rightarrow> details \<Rightarrow> string \<Rightarrow> ext_state \<times> outcome" where
  "nav_settled st d currentUrl = (st, Suspended (AwaitUpdate d currentUrl))"

text \<open>From the answer of \<^verbatim>\<open>tabs.update\<close>: the verification. The listener ends
  here, or waits 50 ms to retry.\<close>

definition nav_updated ::
  "ext_state \<Rightarrow> details \<Rightarrow> string \<Rightarrow> tab reply \<Rightarrow> ext_state \<times> outcome" where
  "nav_updated st d currentUrl updated =
     (case updated of
        Rejected \<Rightarrow> (release (d_tabId d) st, Finished)
      | Resolved updatedTab \<Rightarrow>
          if tab_url updatedTab \<noteq> currentUrl then (st, Suspended (AwaitBackoff d currentUrl))
          else (release (d_tabId d) st, Finished))"

text \<open>From the 50 ms timer to the second \<^verbatim>\<open>await browser.tabs.update\<close>.\<close>

definition nav_backed_off :: "ext_state \<Rightarrow> details \<Rightarrow> string \<Rightarrow> ext_state \<times> outcome" where
  "nav_backed_off st d currentUrl = (st, Suspended (AwaitRetry d currentUrl))"

text \<open>From the answer of the second \<^verbatim>\<open>tabs.update\<close> to the end: fulfilled or
  rejected, what is left is logging and the \<^verbatim>\<open>finally\<close> block.\<close>

definition nav_retried ::
  "ext_state \<Rightarrow> details \<Rightarrow> string \<Rightarrow> tab reply \<Rightarrow> ext_state \<times> outcome" where
  "nav_retried st d currentUrl updated =
     (case updated of
        Rejected \<Rightarrow> (release (d_tabId d) st, Finished)
      | Resolved updatedTab \<Rightarrow> (release (d_tabId d) st, Finished))"

text \<open>What the host answers to the calls of one invocation, and the clock.\<close>

record host_replies =
  on_get :: "tab option reply"
  clock :: int
  on_create :: "tab reply"
  on_update :: "tab reply"
  on_retry :: "tab reply"

text \<open>A suspended invocation goes on with the stretch that follows its
  \<^verbatim>\<open>await\<close>.\<close>

fun resume :: "url_parser \<Rightarrow> host_replies \<Rightarrow> ext_state \<Rightarrow> suspended \<Rightarrow> ext_state \<times> outcome" where
  "resume parse rs st (AwaitGet d) = nav_got parse st d (on_get rs) (clock rs)"
| "resume parse rs st (AwaitCreate d currentUrl i) = nav_created st d currentUrl (on_create rs)"
| "resume parse rs st (AwaitSettle d currentUrl) = nav_settled st d currentUrl"
| "resume parse rs st (AwaitUpdate d currentUrl) = nav_updated st d currentUrl (on_update rs)"
| "resume parse rs st (AwaitBackoff d currentUrl) = nav_backed_off st d currentUrl"
| "resume parse rs st (AwaitRetry d currentUrl) = nav_retried st d currentUrl (on_retry rs)"

text \<open>
  One invocation run from its start to its end with no other listener in between: the
  state it leaves, the calls of the host API it made, in order, and where it stopped.
  The listener has six suspension points, so six steps after the first stretch reach its
  end (\<open>onBeforeNavigate_finishes\<close>).
\<close>

definition advance ::
  "url_parser \<Rightarrow> host_replies \<Rightarrow> ext_state \<times> host_call list \<times> outcome \<Rightarrow>
   ext_state \<times> host_call list \<times> outcome" where
  "advance parse rs x =
     (case x of
        (st, calls, Finished) \<Rightarrow> (st, calls, Finished)
      | (st, calls, Suspended s) \<Rightarrow>
          (case resume parse rs st s of (st', out) \<Rightarrow> (st', calls @ [call_of s], out)))"

definition onBeforeNavigate ::
  "url_parser \<Rightarrow> host_replies \<Rightarrow> ext_state \<Rightarrow> details \<Rightarrow> ext_state \<times> host_call list \<times> outcome" where
  "onBeforeNavigate parse rs st d =
     (case nav_enter st d of
        (st0, out0) \<Rightarrow>
          advance parse rs (advance parse rs (advance parse rs
            (advance parse rs (advance parse rs (advance parse rs (st0, [], out0)))))))"

text \<open>The calls of an invocation that change the host's tabs.\<close>

fun diverting :: "host_call \<Rightarrow> bool" where
  "diverting (TabsCreate u i) = True"
| "diverting (TabsUpdate t u) = True"
| "diverting (TabsGet t) = False"
| "diverting (SetTimeout n) = False"

section \<open>Interleaved invocations\<close>

text \<open>
  The listeners share one thread: a stretch of a listener runs alone, and between two
  stretches of one invocation any stretch of any other may run. The system below keeps
  the script's state, the suspended invocations of the interceptor under arbitrary
  names, and the ids of the tabs the host has closed. Its steps are: an invocation
  starts (the host sends no navigation event for a tab it has closed); a suspended
  invocation goes on, with whatever the host answers; the \<^verbatim>\<open>onRemoved\<close> listener
  runs for a tab; and any other change of the script's state that leaves
  \<^verbatim>\<open>navigationLocks\<close> alone, which is what every stretch of the remaining listeners
  is (\<open>initializeExtension_locks\<close>, \<open>onUpdated_locks\<close>, \<open>onStorageChanged_locks\<close>,
  \<open>loadSettings_untouched\<close>).
\<close>

record system =
  sys_state :: ext_state
  sys_inflight :: "nat \<Rightarrow> suspended option"
  sys_gone :: "int set"

definition tab_of :: "suspended \<Rightarrow> int" where
  "tab_of c = d_tabId (details_of c)"

inductive step :: "url_parser \<Rightarrow> system \<Rightarrow> system \<Rightarrow> bool" for parse where
  enter:
    "sys_inflight s i = None \<Longrightarrow> d_tabId d \<notin> sys_gone s \<Longrightarrow>
     nav_enter (sys_state s) d = (e', out) \<Longrightarrow>
     step parse s
       (s\<lparr>sys_state := e',
          sys_inflight :=
            (case out of Finished \<Rightarrow> sys_inflight s
             | Suspended c \<Rightarrow> (sys_inflight s)(i \<mapsto> c))\<rparr>)"
| continue:
    "sys_inflight s i = Some c \<Longrightarrow> resume parse rs (sys_state s) c = (e', out) \<Longrightarrow>
     step parse s
       (s\<lparr>sys_state := e',
          sys_inflight :=
            (sys_inflight s)
              (i := (case out of Finished \<Rightarrow> None | Suspended c' \<Rightarrow> Some c'))\<rparr>)"
| removed:
    "onRemoved ok (sys_state s) sto t = (e', sto', r) \<Longrightarrow>
     step parse s (s\<lparr>sys_state := e', sys_gone := insert t (sys_gone s)\<rparr>)"
| other:
    "navigationLocks e' = navigationLocks (sys_state s) \<Longrightarrow>
     step parse s (s\<lparr>sys_state := e'\<rparr>)"

text \<open>The script starts with an empty lock map and no invocation.\<close>

inductive reachable :: "url_parser \<Rightarrow> system \<Rightarrow> bool" for parse where
  start:
    "navigationLocks e = [] \<Longrightarrow>
     reachable parse \<lparr>sys_state = e, sys_inflight = (\<lambda>i. None), sys_gone = {}\<rparr>"
| later:
    "reachable parse s \<Longrightarrow> step parse s s' \<Longrightarrow> reachable parse s'"

text \<open>
  The lock discipline: no two suspended invocations work on the same tab; the lock of
  a suspended invocation's tab is held as long as the tab is open; a lock that is held
  belongs to a suspended invocation.
\<close>

definition one_per_tab :: "system \<Rightarrow> bool" where
  "one_per_tab s =
     (\<forall>i j c c'. sys_inflight s i = Some c \<and> sys_inflight s j = Some c' \<and>
        tab_of c = tab_of c' \<longrightarrow> i = j)"

definition holder_locked :: "system \<Rightarrow> bool" where
  "holder_locked s =
     (\<forall>i c. sys_inflight s i = Some c \<and> tab_of c \<notin> sys_gone s \<longrightarrow>
        locked (sys_state s) (tab_of c))"

definition lock_has_holder :: "system \<Rightarrow> bool" where
  "lock_has_holder s =
     (\<forall>t. Map_has t (navigationLocks (sys_state s)) \<longrightarrow>
        (\<exists>i c. sys_inflight s i = Some c \<and> tab_of c = t))"

definition lock_discipline :: "system \<Rightarrow> bool" where
  "lock_discipline s = (one_per_tab s \<and> holder_locked s \<and> lock_has_holder s)"

section \<open>The registry and the host's tabs\<close>

text \<open>
  Modelled from the spec: the host's tab set and its notifications, which are not part
  of the script; after the host contract of the specification (section 6). The host
  keeps a list of tab records with distinct ids;
  it tells the script of a change of a tab's pinned flag or URL by an update
  notification that carries the changed field and the tab's new record, and of a closed
  tab by a removal notification. A step of the world is one change of the host together
  with the listener it triggers, run to its end. A tab opens unpinned, and no listener
  is registered for that. \<open>initialized\<close> is a call of \<^verbatim>\<open>initializeExtension\<close>, whose query
  the host answers with its pinned tabs or rejects. \<open>intercepted\<close> stands for the
  stretches of the navigation interceptor and of the settings listener, none of which
  writes \<^verbatim>\<open>pinnedTabs\<close> (\<open>nav_enter_registry\<close>, \<open>resume_registry\<close>,
  \<open>onStorageChanged_registry\<close>).
\<close>

record world =
  host_tabs :: "tab list"
  script :: ext_state
  storage :: store

inductive world_step :: "world \<Rightarrow> world \<Rightarrow> bool" where
  pin_changed:
    "x \<in> set (host_tabs w) \<Longrightarrow> tab_id x = t \<Longrightarrow>
     onUpdated ok1 ok2 (script w) (storage w) t
       \<lparr>ci_pinned = Some b, ci_url = None\<rparr> (x\<lparr>tab_pinned := b\<rparr>) = (e', sto', r) \<Longrightarrow>
     world_step w
       \<lparr>host_tabs = map (\<lambda>y. if tab_id y = t then y\<lparr>tab_pinned := b\<rparr> else y) (host_tabs w),
        script = e', storage = sto'\<rparr>"
| url_changed:
    "x \<in> set (host_tabs w) \<Longrightarrow> tab_id x = t \<Longrightarrow>
     onUpdated ok1 ok2 (script w) (storage w) t
       \<lparr>ci_pinned = None, ci_url = Some u\<rparr> (x\<lparr>tab_url := u\<rparr>) = (e', sto', r) \<Longrightarrow>
     world_step w
       \<lparr>host_tabs = map (\<lambda>y. if tab_id y = t then y\<lparr>tab_url := u\<rparr> else y) (host_tabs w),
        script = e', storage = sto'\<rparr>"
| tab_closed:
    "onRemoved ok (script w) (storage w) t = (e', sto', r) \<Longrightarrow>
     world_step w
       \<lparr>host_tabs = filter (\<lambda>y. tab_id y \<noteq> t) (host_tabs w), script = e', storage = sto'\<rparr>"
| tab_opened:
    "tab_id x \<notin> tab_id ` set (host_tabs w) \<Longrightarrow> \<not> tab_pinned x \<Longrightarrow>
     world_step w (w\<lparr>host_tabs := host_tabs w @ [x]\<rparr>)"
| initialized:
    "queried = Rejected \<or> queried = Resolved (filter tab_pinned (host_tabs w)) \<Longrightarrow>
     initializeExtension get_ok queried set_ok (script w) (storage w) = (e', sto') \<Longrightarrow>
     world_step w (w\<lparr>script := e', storage := sto'\<rparr>)"
| intercepted:
    "pinnedTabs e' = pinnedTabs (script w) \<Longrightarrow> world_step w (w\<lparr>script := e'\<rparr>)"

text \<open>The ids the registry holds, and the ids of the host's tabs with a property.\<close>

definition registered :: "world \<Rightarrow> int set" where
  "registered w = fst ` set (pinnedTabs (script w))"

definition host_ids :: "(tab \<Rightarrow> bool) \<Rightarrow> world \<Rightarrow> int set" where
  "host_ids P w = tab_id ` set (filter P (host_tabs w))"

text \<open>The invariant as the specification states it: a tab id is in the registry if and
  only if the host reports the tab as pinned with a URL other than the blank
  placeholder.\<close>

definition registry_exact :: "world \<Rightarrow> bool" where
  "registry_exact w =
     (registered w = host_ids (\<lambda>x. tab_pinned x \<and> tab_url x \<noteq> ''about:blank'') w)"

text \<open>The two inclusions that the listeners keep: a registered tab is pinned, and a
  pinned tab that shows a URL which is neither missing nor the blank placeholder is
  registered.\<close>

definition registry_bounds :: "world \<Rightarrow> bool" where
  "registry_bounds w =
     (distinct (map tab_id (host_tabs w)) \<and>
      registered w \<subseteq> host_ids tab_pinned w \<and>
      host_ids (\<lambda>x. tab_pinned x \<and> tab_url x \<noteq> [] \<and> tab_url x \<noteq> ''about:blank'') w
        \<subseteq> registered w)"

section \<open>Measures and example data\<close>

text \<open>How many suspension points an invocation still has before it.\<close>

fun stage :: "outcome \<Rightarrow> nat" where
  "stage Finished = 0"
| "stage (Suspended (AwaitGet d)) = 6"
| "stage (Suspended (AwaitCreate d u i)) = 5"
| "stage (Suspended (AwaitSettle d u)) = 4"
| "stage (Suspended (AwaitUpdate d u)) = 3"
| "stage (Suspended (AwaitBackoff d u)) = 2"
| "stage (Suspended (AwaitRetry d u)) = 1"

text \<open>
  The scenario of the specification: tab 7 is pinned at the inbox of a mail site, and a
  link in it leads to a shop on another site.
\<close>

definition inbox :: string where
  "inbox = ''https://mail.example.com/inbox''"

definition shop_item :: string where
  "shop_item = ''https://shop.other.com/item''"

definition tab7 :: tab where
  "tab7 = \<lparr>tab_id = 7, tab_url = inbox, tab_pinned = True, tab_index = 0\<rparr>"

definition tab8 :: tab where
  "tab8 = \<lparr>tab_id = 8, tab_url = shop_item, tab_pinned = False, tab_index = 1\<rparr>"

definition session7 :: ext_state where
  "session7 =
     \<lparr>debugMode = False, linkBehavior = ''different-domains'', pinnedTabs = [(7, inbox)],
      navigationLocks = [], lastNavigationAttempts = []\<rparr>"

definition replies7 :: host_replies where
  "replies7 =
     \<lparr>on_get = Resolved (Some tab7), clock = 5000, on_create = Resolved tab8,
      on_update = Resolved tab7, on_retry = Resolved tab7\<rparr>"

definition empty_store :: store where
  "empty_store =
     \<lparr>stored_debugMode = None, stored_linkBehavior = None, stored_pinnedUrls = None\<rparr>"

definition click_shop :: details where
  "click_shop = \<lparr>d_tabId = 7, d_frameId = 0, d_url = shop_item\<rparr>"

definition reload_inbox :: details where
  "reload_inbox = \<lparr>d_tabId = 7, d_frameId = 0, d_url = inbox\<rparr>"

text \<open>The state with the lock of tab 7 held, and the system in which the invocation
  for the click on the shop link waits for \<^verbatim>\<open>tabs.get\<close>.\<close>

definition locked7 :: ext_state where
  "locked7 = session7\<lparr>navigationLocks := [(7, True)]\<rparr>"

definition system7 :: system where
  "system7 =
     \<lparr>sys_state = locked7, sys_inflight = (\<lambda>i. None)(0 \<mapsto> AwaitGet click_shop),
      sys_gone = {}\<rparr>"

text \<open>The state after the click on the shop link was diverted at time 5000, and the
  same after tab 7 was unpinned.\<close>

definition diverted7 :: ext_state where
  "diverted7 =
     session7\<lparr>lastNavigationAttempts := [(7, \<lparr>timestamp = 5000, originalUrl = inbox\<rparr>)]\<rparr>"

definition unpinned7 :: ext_state where
  "unpinned7 = diverted7\<lparr>pinnedTabs := []\<rparr>"

text \<open>The state in which the registry has followed the pinned tab to the shop, with
  the attempt of time 4500 on record: the host's navigation back to the inbox is an
  echo.\<close>

definition echo7 :: ext_state where
  "echo7 =
     session7\<lparr>pinnedTabs := [(7, shop_item)],
       lastNavigationAttempts := [(7, \<lparr>timestamp = 4500, originalUrl = inbox\<rparr>)]\<rparr>"

definition store7 :: store where
  "store7 = empty_store\<lparr>stored_pinnedUrls := Some [(7, inbox)]\<rparr>"

definition world7 :: world where
  "world7 = \<lparr>host_tabs = [tab7], script = session7, storage = store7\<rparr>"

definition world7_blank :: world where
  "world7_blank =
     \<lparr>host_tabs = [tab7\<lparr>tab_url := ''about:blank''\<rparr>], script = session7, storage = store7\<rparr>"

text \<open>
  What holds of the lock of tab \<open>t\<close> along one invocation that has passed the lock
  check: while it is suspended it works on \<open>t\<close>, and once it has finished the lock map has
  no entry for \<open>t\<close>.
\<close>

definition lock_settled :: "int \<Rightarrow> ext_state \<times> host_call list \<times> outcome \<Rightarrow> bool" where
  "lock_settled t x =
     (case snd (snd x) of
        Finished \<Rightarrow> \<not> Map_has t (navigationLocks (fst x))
      | Suspended c \<Rightarrow> tab_of c = t)"

section \<open>Facts about the built-ins\<close>

lemma js_split_nonempty: "js_split sep s \<noteq> []"
  by (induction s) auto

lemma js_join_split: "js_join sep (js_split sep s) = s"
proof (induction s)
  case Nil
  then show ?case by simp
next
  case (Cons c cs)
  obtain p ps where sp: "js_split sep cs = p # ps"
    using js_split_nonempty [of sep cs] by (cases "js_split sep cs") auto
  show ?case
  proof (cases "c = sep")
    case True
    then show ?thesis using Cons sp by simp
  next
    case False
    then show ?thesis using Cons sp by (cases ps) auto
  qed
qed

text \<open>\<^verbatim>\<open>getBaseDomain\<close> computes the registrable domain of the glossary: with at most
  two labels, the last two labels joined are the host name itself.\<close>

lemma getBaseDomain_registrable: "getBaseDomain h = registrableDomain h"
  by (simp add: getBaseDomain_def registrableDomain_def js_slice_last2_def Let_def js_join_split)

lemma map_of_Map_set: "map_of (Map_set k v m) = (map_of m)(k \<mapsto> v)"
  by (induction m) auto

lemma map_of_Map_delete: "map_of (Map_delete k m) = (map_of m)(k := None)"
  by (induction m) (auto simp: Map_delete_def)

lemma keys_Map_set: "fst ` set (Map_set k v m) = insert k (fst ` set m)"
  by (simp add: dom_map_of_conv_image_fst [symmetric] map_of_Map_set)

lemma keys_Map_delete: "fst ` set (Map_delete k m) = fst ` set m - {k}"
  by (auto simp: Map_delete_def)

lemma Map_has_keys: "Map_has k m = (k \<in> fst ` set m)"
  by (simp add: Map_has_def map_of_eq_None_iff)

section \<open>The diversion decision\<close>

lemmas simple_url_defs = URL_simple_def after_prefix_def simple_host_def lower_alpha_def

lemma parse_a_x:
  "URL_simple ''https://a.example.com/x'' =
     Some \<lparr>protocol = ''https:'', hostname = ''a.example.com''\<rparr>"
  by (simp add: simple_url_defs)

lemma parse_a_y:
  "URL_simple ''https://a.example.com/y'' =
     Some \<lparr>protocol = ''https:'', hostname = ''a.example.com''\<rparr>"
  by (simp add: simple_url_defs)

lemma parse_b_y:
  "URL_simple ''https://b.example.com/y'' =
     Some \<lparr>protocol = ''https:'', hostname = ''b.example.com''\<rparr>"
  by (simp add: simple_url_defs)

lemma parse_inbox:
  "URL_simple inbox = Some \<lparr>protocol = ''https:'', hostname = ''mail.example.com''\<rparr>"
  by (simp add: inbox_def simple_url_defs)

lemma parse_shop_item:
  "URL_simple shop_item = Some \<lparr>protocol = ''https:'', hostname = ''shop.other.com''\<rparr>"
  by (simp add: shop_item_def simple_url_defs)

lemma base_a: "getBaseDomain ''a.example.com'' = ''example.com''"
  by (simp add: getBaseDomain_def js_slice_last2_def)

lemma base_b: "getBaseDomain ''b.example.com'' = ''example.com''"
  by (simp add: getBaseDomain_def js_slice_last2_def)

lemma base_mail: "getBaseDomain ''mail.example.com'' = ''example.com''"
  by (simp add: getBaseDomain_def js_slice_last2_def)

lemma base_shop: "getBaseDomain ''shop.other.com'' = ''other.com''"
  by (simp add: getBaseDomain_def js_slice_last2_def)

lemmas decision_defs = shouldOpenInNewTab_def isDifferentDomain_def isDifferentDomain_try_def

lemma decide_a_b:
  "shouldOpenInNewTab URL_simple ''different-domains''
     ''https://a.example.com/x'' ''https://b.example.com/y'' = False"
  by (simp add: decision_defs parse_a_x parse_b_y base_a base_b)

lemma decide_a_a:
  "shouldOpenInNewTab URL_simple ''different-domains''
     ''https://a.example.com/x'' ''https://a.example.com/y'' = False"
  by (simp add: decision_defs parse_a_x parse_a_y base_a)

lemma inbox_not_shop: "inbox \<noteq> shop_item"
  by (simp add: inbox_def shop_item_def)

lemma decide_inbox_shop:
  "shouldOpenInNewTab URL_simple ''different-domains'' inbox shop_item = True"
  by (simp add: decision_defs parse_inbox parse_shop_item base_mail base_shop inbox_not_shop)

lemma decide_general:
  "shouldOpenInNewTab parse ''different-domains'' c n =
     (c \<noteq> n \<and>
      (case parse c of
         None \<Rightarrow> True
       | Some d1 \<Rightarrow>
           (case parse n of
              None \<Rightarrow> True
            | Some d2 \<Rightarrow>
                privileged (protocol d1) \<or> privileged (protocol d2) \<or>
                registrableDomain (hostname d1) \<noteq> registrableDomain (hostname d2))))"
  by (auto simp: decision_defs privileged_def getBaseDomain_registrable split: option.splits)

text \<open>
  C1, as the specification states it, fails at its own example. The host names
  \<^verbatim>\<open>a.example.com\<close> and \<^verbatim>\<open>b.example.com\<close> have the same last two labels,
  \<^verbatim>\<open>example.com\<close>, so with \<^verbatim>\<open>linkBehavior = 'different-domains'\<close> a navigation from
  \<^verbatim>\<open>https://a.example.com/x\<close> to \<^verbatim>\<open>https://b.example.com/y\<close> gives \<^verbatim>\<open>false\<close>:
  it is not diverted, where the claim says that it is.
\<close>

theorem subdomains_not_diverted:
  "\<not> shouldOpenInNewTab URL_simple ''different-domains''
       ''https://a.example.com/x'' ''https://b.example.com/y'' \<and>
   ''https://a.example.com/x'' \<noteq> ''https://b.example.com/y'' \<and>
   registrableDomain ''a.example.com'' = ''example.com'' \<and>
   registrableDomain ''b.example.com'' = ''example.com''"
  using decide_a_b base_a base_b by (simp add: getBaseDomain_registrable [symmetric])

text \<open>
  C1, amended. With \<^verbatim>\<open>linkBehavior = 'different-domains'\<close>,
  \<^verbatim>\<open>shouldOpenInNewTab(currentUrl, newUrl)\<close> is true if and only if the two URLs
  differ and one of these holds: a URL does not parse; a URL has the protocol
  \<^verbatim>\<open>about:\<close>, \<^verbatim>\<open>chrome:\<close> or \<^verbatim>\<open>moz-extension:\<close>; the registrable domains (the last
  two dot-separated labels of the host names) differ. So for two different URLs that
  parse and have none of the three protocols it is true exactly when the registrable
  domains differ. It is false from \<^verbatim>\<open>https://a.example.com/x\<close> to
  \<^verbatim>\<open>https://b.example.com/y\<close> and to \<^verbatim>\<open>https://a.example.com/y\<close>, and true from
  \<^verbatim>\<open>https://mail.example.com/inbox\<close> to \<^verbatim>\<open>https://shop.other.com/item\<close>.
\<close>

theorem different_domains_decision:
  "shouldOpenInNewTab parse ''different-domains'' currentUrl newUrl =
     (currentUrl \<noteq> newUrl \<and>
      (case parse currentUrl of
         None \<Rightarrow> True
       | Some d1 \<Rightarrow>
           (case parse newUrl of
              None \<Rightarrow> True
            | Some d2 \<Rightarrow>
                privileged (protocol d1) \<or> privileged (protocol d2) \<or>
                registrableDomain (hostname d1) \<noteq> registrableDomain (hostname d2)))) \<and>
   shouldOpenInNewTab URL_simple ''different-domains''
     ''https://a.example.com/x'' ''https://b.example.com/y'' = False \<and>
   shouldOpenInNewTab URL_simple ''different-domains''
     ''https://a.example.com/x'' ''https://a.example.com/y'' = False \<and>
   shouldOpenInNewTab URL_simple ''different-domains'' inbox shop_item = True"
  using decide_general [of parse currentUrl newUrl] decide_a_b decide_a_a decide_inbox_shop
  by simp

theorem different_domains_decision_witness:
  "shouldOpenInNewTab URL_simple ''different-domains'' inbox shop_item =
     (registrableDomain ''mail.example.com'' \<noteq> registrableDomain ''shop.other.com'') \<and>
   registrableDomain ''mail.example.com'' = ''example.com'' \<and>
   registrableDomain ''shop.other.com'' = ''other.com''"
  using different_domains_decision [of URL_simple inbox shop_item] base_mail base_shop
  by (simp add: parse_inbox parse_shop_item privileged_def inbox_not_shop
      getBaseDomain_registrable [symmetric])

text \<open>
  C7. With \<^verbatim>\<open>linkBehavior = 'all-links'\<close>, \<^verbatim>\<open>shouldOpenInNewTab\<close> is true for every
  two different URLs, whatever the parser makes of them.
\<close>

theorem all_links_diverts:
  "currentUrl \<noteq> newUrl \<Longrightarrow> shouldOpenInNewTab parse ''all-links'' currentUrl newUrl"
  by (simp add: shouldOpenInNewTab_def)

theorem all_links_diverts_witness:
  "''https://a.example.com/x'' \<noteq> ''https://a.example.com/y'' \<and>
   shouldOpenInNewTab URL_simple ''all-links''
     ''https://a.example.com/x'' ''https://a.example.com/y''"
proof -
  have h: "''https://a.example.com/x'' \<noteq> ''https://a.example.com/y''" by simp
  show ?thesis using h all_links_diverts [OF h, of URL_simple] by simp
qed

text \<open>
  C9. When \<^verbatim>\<open>new URL\<close> throws for one of the two URLs, the \<^verbatim>\<open>try\<close> block of
  \<^verbatim>\<open>isDifferentDomain\<close> ends with the error, the \<^verbatim>\<open>catch\<close> block turns it into
  \<^verbatim>\<open>true\<close>, and no error leaves the function. With
  \<^verbatim>\<open>linkBehavior = 'different-domains'\<close> the decision for two such URLs that differ
  is therefore to divert; for two equal strings \<^verbatim>\<open>shouldOpenInNewTab\<close> has answered
  \<^verbatim>\<open>false\<close> before it comes to the comparison of domains (C6).
\<close>

theorem parse_failure_is_different_domain:
  "parse url1 = None \<or> parse url2 = None \<Longrightarrow>
   isDifferentDomain parse url1 url2 \<and>
   (\<exists>e. isDifferentDomain_try parse url1 url2 = Inl e) \<and>
   (url1 \<noteq> url2 \<longrightarrow> shouldOpenInNewTab parse ''different-domains'' url1 url2)"
  by (auto simp: decision_defs split: option.splits)

theorem parse_failure_is_different_domain_witness:
  "URL_simple ''not a url'' = None \<and>
   isDifferentDomain URL_simple inbox ''not a url'' \<and>
   shouldOpenInNewTab URL_simple ''different-domains'' inbox ''not a url''"
proof -
  have h: "URL_simple ''not a url'' = None" by (simp add: simple_url_defs)
  have "inbox \<noteq> ''not a url''" by (simp add: inbox_def)
  then show ?thesis
    using h parse_failure_is_different_domain [of URL_simple inbox "''not a url''"] by simp
qed

section \<open>One invocation of the interceptor\<close>

lemmas nav_defs = nav_got_def nav_created_def nav_settled_def nav_updated_def
  nav_backed_off_def nav_retried_def

lemma stage_0: "stage out = 0 \<Longrightarrow> out = Finished"
  by (cases out rule: stage.cases) auto

lemma resume_stage: "stage (snd (resume parse rs st s)) < stage (Suspended s)"
  by (cases s) (auto simp: nav_defs Let_def split: reply.splits option.splits)

lemma advance_stage: "stage (snd (snd (advance parse rs x))) \<le> stage (snd (snd x)) - 1"
proof -
  obtain st calls out where x: "x = (st, calls, out)" by (cases x) auto
  show ?thesis
  proof (cases out)
    case Finished
    then show ?thesis using x by (simp add: advance_def)
  next
    case (Suspended s)
    then show ?thesis using x resume_stage [of parse rs st s]
      by (cases "resume parse rs st s") (auto simp: advance_def)
  qed
qed

lemma nav_enter_stage: "stage (snd (nav_enter st d)) \<le> 6"
  by (simp add: nav_enter_def Let_def)

lemma six_advances:
  assumes "stage (snd (snd x0)) \<le> 6"
  shows "snd (snd (advance parse rs (advance parse rs (advance parse rs
           (advance parse rs (advance parse rs (advance parse rs x0))))))) = Finished"
proof -
  define x1 where "x1 = advance parse rs x0"
  define x2 where "x2 = advance parse rs x1"
  define x3 where "x3 = advance parse rs x2"
  define x4 where "x4 = advance parse rs x3"
  define x5 where "x5 = advance parse rs x4"
  define x6 where "x6 = advance parse rs x5"
  have "stage (snd (snd x1)) \<le> 5" using assms advance_stage [of parse rs x0] by (simp add: x1_def)
  then have "stage (snd (snd x2)) \<le> 4" using advance_stage [of parse rs x1] by (simp add: x2_def)
  then have "stage (snd (snd x3)) \<le> 3" using advance_stage [of parse rs x2] by (simp add: x3_def)
  then have "stage (snd (snd x4)) \<le> 2" using advance_stage [of parse rs x3] by (simp add: x4_def)
  then have "stage (snd (snd x5)) \<le> 1" using advance_stage [of parse rs x4] by (simp add: x5_def)
  then have "stage (snd (snd x6)) \<le> 0" using advance_stage [of parse rs x5] by (simp add: x6_def)
  then have "snd (snd x6) = Finished" using stage_0 by simp
  then show ?thesis by (simp add: x1_def x2_def x3_def x4_def x5_def x6_def)
qed

text \<open>Every invocation comes to its end, whatever the host answers.\<close>

lemma onBeforeNavigate_finishes: "snd (snd (onBeforeNavigate parse rs st d)) = Finished"
proof -
  obtain st0 out0 where e: "nav_enter st d = (st0, out0)" by (cases "nav_enter st d") auto
  have "stage (snd (snd (st0, [] :: host_call list, out0))) \<le> 6"
    using nav_enter_stage [of st d] e by simp
  then show ?thesis using e by (simp add: onBeforeNavigate_def six_advances)
qed

lemma advance_Finished: "advance parse rs (st, calls, Finished) = (st, calls, Finished)"
  by (simp add: advance_def)

lemma onBeforeNavigate_stopped:
  "nav_enter st d = (st0, Finished) \<Longrightarrow> onBeforeNavigate parse rs st d = (st0, [], Finished)"
  by (simp add: onBeforeNavigate_def advance_Finished)

lemma onBeforeNavigate_stopped_after_get:
  "nav_enter st d = (st0, Suspended (AwaitGet d)) \<Longrightarrow>
   nav_got parse st0 d (on_get rs) (clock rs) = (st1, Finished) \<Longrightarrow>
   onBeforeNavigate parse rs st d = (st1, [TabsGet (d_tabId d)], Finished)"
  by (simp add: onBeforeNavigate_def advance_Finished) (simp add: advance_def)

lemma nav_enter_cases:
  "nav_enter st d = (st, Finished) \<and> locked st (d_tabId d) \<or>
   nav_enter st d =
     (release (d_tabId d) (st\<lparr>navigationLocks := Map_set (d_tabId d) True (navigationLocks st)\<rparr>),
      Finished) \<and> \<not> locked st (d_tabId d) \<or>
   nav_enter st d =
     (st\<lparr>navigationLocks := Map_set (d_tabId d) True (navigationLocks st)\<rparr>,
      Suspended (AwaitGet d)) \<and> \<not> locked st (d_tabId d)"
  by (simp add: nav_enter_def Let_def)

lemma nav_enter_locked: "locked st (d_tabId d) \<Longrightarrow> nav_enter st d = (st, Finished)"
  by (simp add: nav_enter_def)

lemma resume_cases:
  "resume parse rs st c = (e', out) \<Longrightarrow>
   out = Finished \<and> navigationLocks e' = Map_delete (tab_of c) (navigationLocks st) \<or>
   (\<exists>c'. out = Suspended c' \<and> tab_of c' = tab_of c \<and> navigationLocks e' = navigationLocks st)"
  by (cases c)
    (auto simp: nav_defs tab_of_def release_def Let_def split: reply.splits option.splits if_splits)

text \<open>The interceptor never writes the registry.\<close>

lemma nav_enter_registry: "pinnedTabs (fst (nav_enter st d)) = pinnedTabs st"
  by (simp add: nav_enter_def release_def Let_def)

lemma resume_registry: "pinnedTabs (fst (resume parse rs st c)) = pinnedTabs st"
  by (cases c) (auto simp: nav_defs release_def Let_def split: reply.splits option.splits)

lemma nav_got_echo:
  "Map_get (d_tabId d) (lastNavigationAttempts st) = Some a \<Longrightarrow> d_url d = originalUrl a \<Longrightarrow>
   now - timestamp a < 1000 \<Longrightarrow>
   nav_got parse st d got now = (release (d_tabId d) st, Finished)"
  by (simp add: nav_got_def Let_def split: reply.splits option.splits)

lemma nav_got_same_url:
  "Map_get (d_tabId d) (pinnedTabs st) = Some (d_url d) \<Longrightarrow> d_url d \<noteq> [] \<Longrightarrow>
   nav_got parse st d got now = (release (d_tabId d) st, Finished)"
  by (simp add: nav_got_def shouldOpenInNewTab_def Let_def split: reply.splits option.splits)

text \<open>
  The two scenarios of the specification, evaluated. The click on the shop link in the
  pinned inbox is diverted: the invocation asks for the tab, creates a tab for the shop
  right after the pinned one, waits, and sends the pinned tab back to the inbox; the
  registry is as before. The reload of the inbox makes no call but \<^verbatim>\<open>tabs.get\<close> and
  changes nothing.
\<close>

lemma inbox_nonempty: "inbox \<noteq> []"
  by (simp add: inbox_def)

lemma click_shop_diverted:
  "onBeforeNavigate URL_simple replies7 session7 click_shop =
     (diverted7,
      [TabsGet 7, TabsCreate shop_item 1, SetTimeout 100, TabsUpdate 7 inbox],
      Finished)"
  by (simp add: onBeforeNavigate_def advance_def nav_enter_def nav_defs Let_def locked_def
      release_def Map_get_def Map_has_def Map_delete_def session7_def click_shop_def
      replies7_def tab7_def tab8_def diverted7_def decide_inbox_shop inbox_not_shop
      inbox_nonempty)

lemma reload_inbox_allowed:
  "onBeforeNavigate URL_simple replies7 session7 reload_inbox = (session7, [TabsGet 7], Finished)"
  by (simp add: onBeforeNavigate_def advance_def nav_enter_def nav_defs Let_def locked_def
      release_def Map_get_def Map_has_def Map_delete_def session7_def reload_inbox_def
      replies7_def tab7_def shouldOpenInNewTab_def inbox_nonempty)

text \<open>
  C6. \<^verbatim>\<open>shouldOpenInNewTab(u, u)\<close> is false for every URL and every value of
  \<^verbatim>\<open>linkBehavior\<close>. So an invocation of the interceptor whose target is the URL the
  registry holds for the tab (the listener's \<^verbatim>\<open>currentUrl\<close>) makes no call that
  creates or updates a tab, whatever the host answers.
\<close>

theorem same_url_never_diverted:
  "shouldOpenInNewTab parse lb u u = False \<and>
   (Map_get (d_tabId d) (pinnedTabs st) = Some (d_url d) \<and> d_url d \<noteq> [] \<longrightarrow>
    \<not> list_ex diverting (fst (snd (onBeforeNavigate parse rs st d))))"
proof (intro conjI impI)
  show "shouldOpenInNewTab parse lb u u = False" by (simp add: shouldOpenInNewTab_def)
next
  assume a: "Map_get (d_tabId d) (pinnedTabs st) = Some (d_url d) \<and> d_url d \<noteq> []"
  let ?t = "d_tabId d"
  let ?st1 = "st\<lparr>navigationLocks := Map_set ?t True (navigationLocks st)\<rparr>"
  consider
      (skipped) "nav_enter st d = (st, Finished)"
    | (filtered) "nav_enter st d = (release ?t ?st1, Finished)"
    | (passed) "nav_enter st d = (?st1, Suspended (AwaitGet d))"
    using nav_enter_cases [of st d] by blast
  then show "\<not> list_ex diverting (fst (snd (onBeforeNavigate parse rs st d)))"
  proof cases
    case skipped
    then show ?thesis by (simp add: onBeforeNavigate_stopped)
  next
    case filtered
    then show ?thesis by (simp add: onBeforeNavigate_stopped)
  next
    case passed
    have "nav_got parse ?st1 d (on_get rs) (clock rs) = (release ?t ?st1, Finished)"
      using a by (intro nav_got_same_url) simp_all
    with passed show ?thesis by (simp add: onBeforeNavigate_stopped_after_get)
  qed
qed

theorem same_url_never_diverted_witness:
  "Map_get (d_tabId reload_inbox) (pinnedTabs session7) = Some (d_url reload_inbox) \<and>
   d_url reload_inbox \<noteq> [] \<and>
   shouldOpenInNewTab URL_simple ''all-links'' inbox inbox = False \<and>
   \<not> list_ex diverting (fst (snd (onBeforeNavigate URL_simple replies7 session7 reload_inbox)))"
proof -
  have h: "Map_get (d_tabId reload_inbox) (pinnedTabs session7) = Some (d_url reload_inbox) \<and>
      d_url reload_inbox \<noteq> []"
    by (simp add: Map_get_def reload_inbox_def session7_def inbox_nonempty)
  show ?thesis
    using h same_url_never_diverted [of URL_simple "''all-links''" inbox reload_inbox session7
        replies7]
    by simp
qed

text \<open>
  C5. When the attempt on record for the tab has the target of the navigation as its
  \<^verbatim>\<open>originalUrl\<close> and \<^verbatim>\<open>Date.now()\<close> is less than 1000 ms after its timestamp,
  the invocation ends without a call that creates or updates a tab, and leaves the
  registry and the record of attempts as they were: the navigation goes through in the
  pinned tab. This holds on every path to the check (lock held, sub-frame, tab not
  registered, tab gone or unpinned) and for every answer of the host. The stretch
  that makes the check ends the invocation there in whatever state it finds these two
  facts, so listeners that ran while the invocation waited for \<^verbatim>\<open>tabs.get\<close> do
  not matter.
\<close>

theorem echo_allowed:
  assumes "Map_get (d_tabId d) (lastNavigationAttempts st) = Some a"
    and "d_url d = originalUrl a"
    and "clock rs - timestamp a < 1000"
  shows "snd (snd (onBeforeNavigate parse rs st d)) = Finished \<and>
    \<not> list_ex diverting (fst (snd (onBeforeNavigate parse rs st d))) \<and>
    pinnedTabs (fst (onBeforeNavigate parse rs st d)) = pinnedTabs st \<and>
    lastNavigationAttempts (fst (onBeforeNavigate parse rs st d)) = lastNavigationAttempts st \<and>
    nav_got parse st d (on_get rs) (clock rs) = (release (d_tabId d) st, Finished)"
proof -
  let ?t = "d_tabId d"
  let ?st1 = "st\<lparr>navigationLocks := Map_set ?t True (navigationLocks st)\<rparr>"
  have check: "nav_got parse st d (on_get rs) (clock rs) = (release ?t st, Finished)"
    using assms by (rule nav_got_echo)
  consider
      (skipped) "nav_enter st d = (st, Finished)"
    | (filtered) "nav_enter st d = (release ?t ?st1, Finished)"
    | (passed) "nav_enter st d = (?st1, Suspended (AwaitGet d))"
    using nav_enter_cases [of st d] by blast
  then show ?thesis
  proof cases
    case skipped
    then show ?thesis using check by (simp add: onBeforeNavigate_stopped)
  next
    case filtered
    then show ?thesis using check by (simp add: onBeforeNavigate_stopped release_def)
  next
    case passed
    have "nav_got parse ?st1 d (on_get rs) (clock rs) = (release ?t ?st1, Finished)"
      using assms by (intro nav_got_echo [of d ?st1 a]) simp_all
    with passed show ?thesis using check
      by (simp add: onBeforeNavigate_stopped_after_get release_def)
  qed
qed

lemma decide_shop_inbox:
  "shouldOpenInNewTab URL_simple ''different-domains'' shop_item inbox = True"
  using inbox_not_shop
  by (simp add: decision_defs parse_inbox parse_shop_item base_mail base_shop)

theorem echo_allowed_witness:
  "Map_get 7 (lastNavigationAttempts echo7) = Some \<lparr>timestamp = 4500, originalUrl = inbox\<rparr> \<and>
   clock replies7 - 4500 < 1000 \<and>
   Map_get 7 (pinnedTabs echo7) = Some shop_item \<and>
   shouldOpenInNewTab URL_simple (linkBehavior echo7) shop_item inbox \<and>
   snd (snd (onBeforeNavigate URL_simple replies7 echo7 reload_inbox)) = Finished \<and>
   \<not> list_ex diverting (fst (snd (onBeforeNavigate URL_simple replies7 echo7 reload_inbox))) \<and>
   pinnedTabs (fst (onBeforeNavigate URL_simple replies7 echo7 reload_inbox)) = [(7, shop_item)]"
proof -
  have 1: "Map_get (d_tabId reload_inbox) (lastNavigationAttempts echo7) =
      Some \<lparr>timestamp = 4500, originalUrl = inbox\<rparr>"
    by (simp add: Map_get_def echo7_def reload_inbox_def)
  have 2: "d_url reload_inbox = originalUrl \<lparr>timestamp = 4500, originalUrl = inbox\<rparr>"
    by (simp add: reload_inbox_def)
  have 3: "clock replies7 - timestamp \<lparr>timestamp = 4500, originalUrl = inbox\<rparr> < 1000"
    by (simp add: replies7_def)
  have 4: "Map_get 7 (pinnedTabs echo7) = Some shop_item \<and> linkBehavior echo7 = ''different-domains''"
    by (simp add: Map_get_def echo7_def session7_def)
  have 5: "d_tabId reload_inbox = 7" by (simp add: reload_inbox_def)
  show ?thesis
    using echo_allowed [OF 1 2 3, of URL_simple] 1 3 4 5 decide_shop_inbox
    by (simp add: echo7_def)
qed

section \<open>The registry listeners\<close>

text \<open>
  C8. A second call of \<^verbatim>\<open>initializeExtension\<close>, made in the state and on the store
  that the first call left, with the host answering as it did the first time (the
  same pinned tabs, and each of the three promises fulfilled or rejected as before),
  leaves the state and the store exactly as the first call left them: the registry
  and the snapshot under \<^verbatim>\<open>pinnedUrls\<close>, and the settings as well.
\<close>

theorem initializeExtension_idempotent:
  "initializeExtension get_ok queried set_ok
     (fst (initializeExtension get_ok queried set_ok st sto))
     (snd (initializeExtension get_ok queried set_ok st sto)) =
   initializeExtension get_ok queried set_ok st sto"
  by (auto simp: initializeExtension_def savePinnedTabs_def Let_def
      split: reply.splits option.splits)

text \<open>When the host fulfils the three promises, the registry is rebuilt from the
  host's list alone and the snapshot is the registry.\<close>

lemma initializeExtension_rebuilds:
  "initializeExtension True (Resolved pinnedTabsList) True st sto = (st', sto') \<Longrightarrow>
   pinnedTabs st' = foldl add_pinned [] pinnedTabsList \<and>
   stored_pinnedUrls sto' = Some (pinnedTabs st')"
  by (auto simp: initializeExtension_def savePinnedTabs_def Let_def)

text \<open>
  C10. When an update notification reports \<^verbatim>\<open>pinned: true\<close> for a tab whose URL is
  \<^verbatim>\<open>about:blank\<close>, the listener deletes the tab's entry from the registry (it
  neither keeps nor overwrites it) and then calls \<^verbatim>\<open>savePinnedTabs\<close>: once the
  host has committed that write, the snapshot is the registry without the tab.
\<close>

theorem pinned_blank_removes_entry:
  "ci_pinned ci = Some True \<Longrightarrow> tab_url t = ''about:blank'' \<Longrightarrow>
   pinnedTabs (fst (onUpdated ok1 ok2 st sto tabId ci t)) = Map_delete tabId (pinnedTabs st) \<and>
   \<not> Map_has tabId (pinnedTabs (fst (onUpdated ok1 ok2 st sto tabId ci t))) \<and>
   (ok1 \<longrightarrow>
      snd (snd (onUpdated ok1 ok2 st sto tabId ci t)) = Returned \<and>
      stored_pinnedUrls (fst (snd (onUpdated ok1 ok2 st sto tabId ci t))) =
        Some (pinnedTabs (fst (onUpdated ok1 ok2 st sto tabId ci t))))"
  by (auto simp: onUpdated_def onUpdated_pinned_def onUpdated_url_def savePinnedTabs_def Let_def
      Map_has_def map_of_Map_delete split: reply.splits option.splits)

theorem pinned_blank_removes_entry_witness:
  "Map_has 7 (pinnedTabs session7) \<and>
   \<not> Map_has 7 (pinnedTabs (fst (onUpdated True True session7 store7 7
        \<lparr>ci_pinned = Some True, ci_url = None\<rparr> (tab7\<lparr>tab_url := ''about:blank''\<rparr>)))) \<and>
   snd (snd (onUpdated True True session7 store7 7
        \<lparr>ci_pinned = Some True, ci_url = None\<rparr> (tab7\<lparr>tab_url := ''about:blank''\<rparr>))) =
     Returned \<and>
   stored_pinnedUrls (fst (snd (onUpdated True True session7 store7 7
        \<lparr>ci_pinned = Some True, ci_url = None\<rparr> (tab7\<lparr>tab_url := ''about:blank''\<rparr>)))) =
     Some []"
proof -
  have 1: "ci_pinned \<lparr>ci_pinned = Some True, ci_url = None\<rparr> = Some True" by simp
  have 2: "tab_url (tab7\<lparr>tab_url := ''about:blank''\<rparr>) = ''about:blank''" by simp
  have 3: "Map_has 7 (pinnedTabs session7)" by (simp add: Map_has_def session7_def)
  have 4: "Map_delete 7 (pinnedTabs session7) = []" by (simp add: Map_delete_def session7_def)
  show ?thesis
    using pinned_blank_removes_entry
        [OF 1 2, where ?ok1.0 = True and ?ok2.0 = True and st = session7 and sto = store7
          and tabId = 7]
      3 4
    by (simp add: Map_has_def)
qed

text \<open>
  The \<^verbatim>\<open>onRemoved\<close> listener for a tab that is in the registry: the three maps lose
  the tab's entry, and once the host has committed the write the snapshot has none
  either.
\<close>

lemma onRemoved_registered:
  "Map_has tabId (pinnedTabs st) \<Longrightarrow> onRemoved ok st sto tabId = (st', sto', r) \<Longrightarrow>
   \<not> Map_has tabId (pinnedTabs st') \<and> \<not> Map_has tabId (navigationLocks st') \<and>
   \<not> Map_has tabId (lastNavigationAttempts st') \<and>
   (ok \<longrightarrow> r = Returned \<and> stored_pinnedUrls sto' = Some (pinnedTabs st'))"
  by (auto simp: onRemoved_def savePinnedTabs_def Let_def Map_has_def map_of_Map_delete
      split: if_splits)

text \<open>For a tab that is not in the registry the listener does nothing at all.\<close>

lemma onRemoved_unregistered:
  "\<not> Map_has tabId (pinnedTabs st) \<Longrightarrow> onRemoved ok st sto tabId = (st, sto, Returned)"
  by (simp add: onRemoved_def)

text \<open>
  C4 does not hold of the code. The comment on the \<^verbatim>\<open>onRemoved\<close> listener says that
  it removes all stored state of a closed tab, but the listener does so only for a tab
  that is in the registry at that moment. In the scenario of the specification, let the
  click on the shop link be diverted (the attempt is recorded for tab 7), let the user
  unpin tab 7 (the update listener deletes it from the registry) and then close it:
  the removal listener changes nothing, and the attempt recorded for tab 7 stays in
  \<^verbatim>\<open>lastNavigationAttempts\<close>.
\<close>

theorem onRemoved_keeps_attempt_of_unpinned_tab:
  "onBeforeNavigate URL_simple replies7 session7 click_shop =
     (diverted7,
      [TabsGet 7, TabsCreate shop_item 1, SetTimeout 100, TabsUpdate 7 inbox],
      Finished) \<and>
   onUpdated True True diverted7 store7 7 \<lparr>ci_pinned = Some False, ci_url = None\<rparr>
     (tab7\<lparr>tab_pinned := False\<rparr>) =
     (unpinned7, store7\<lparr>stored_pinnedUrls := Some []\<rparr>, Returned) \<and>
   onRemoved True unpinned7 (store7\<lparr>stored_pinnedUrls := Some []\<rparr>) 7 =
     (unpinned7, store7\<lparr>stored_pinnedUrls := Some []\<rparr>, Returned) \<and>
   Map_get 7 (lastNavigationAttempts unpinned7) =
     Some \<lparr>timestamp = 5000, originalUrl = inbox\<rparr>"
proof -
  have "onUpdated True True diverted7 store7 7 \<lparr>ci_pinned = Some False, ci_url = None\<rparr>
     (tab7\<lparr>tab_pinned := False\<rparr>) =
     (unpinned7, store7\<lparr>stored_pinnedUrls := Some []\<rparr>, Returned)"
    by (simp add: onUpdated_def onUpdated_pinned_def onUpdated_url_def savePinnedTabs_def
        Let_def Map_delete_def unpinned7_def diverted7_def session7_def)
  moreover have "onRemoved True unpinned7 (store7\<lparr>stored_pinnedUrls := Some []\<rparr>) 7 =
     (unpinned7, store7\<lparr>stored_pinnedUrls := Some []\<rparr>, Returned)"
    by (simp add: onRemoved_def Map_has_def unpinned7_def)
  moreover have "Map_get 7 (lastNavigationAttempts unpinned7) =
     Some \<lparr>timestamp = 5000, originalUrl = inbox\<rparr>"
    by (simp add: Map_get_def unpinned7_def diverted7_def)
  ultimately show ?thesis using click_shop_diverted by simp
qed

section \<open>The lock discipline\<close>

lemma locked_map_of: "locked st t = (map_of (navigationLocks st) t = Some True)"
  by (simp add: locked_def Map_get_def)

text \<open>Only the interceptor and the removal listener write \<^verbatim>\<open>navigationLocks\<close>.\<close>

lemma onRemoved_locks:
  "onRemoved ok st sto t = (e', sto', r) \<Longrightarrow>
   navigationLocks e' = navigationLocks st \<or>
   navigationLocks e' = Map_delete t (navigationLocks st)"
  by (auto simp: onRemoved_def savePinnedTabs_def Let_def split: if_splits)

lemma initializeExtension_locks:
  "navigationLocks (fst (initializeExtension get_ok queried set_ok st sto)) = navigationLocks st"
  by (simp add: initializeExtension_def savePinnedTabs_def Let_def split: reply.splits)

lemma onUpdated_locks:
  "navigationLocks (fst (onUpdated ok1 ok2 st sto t ci x)) = navigationLocks st"
  by (simp add: onUpdated_def onUpdated_pinned_def onUpdated_url_def savePinnedTabs_def Let_def
      split: option.splits completion.splits)

lemma onStorageChanged_locks:
  "navigationLocks (onStorageChanged st area b l) = navigationLocks st"
  by (simp add: onStorageChanged_def Let_def split: option.splits)

lemma onStorageChanged_registry:
  "pinnedTabs (onStorageChanged st area b l) = pinnedTabs st"
  by (simp add: onStorageChanged_def Let_def split: option.splits)

lemma loadSettings_untouched:
  "navigationLocks (loadSettings st sto) = navigationLocks st \<and>
   pinnedTabs (loadSettings st sto) = pinnedTabs st"
  by (simp add: loadSettings_def)

lemma unlocked_free:
  assumes "holder_locked s" and "t \<notin> sys_gone s" and "\<not> locked (sys_state s) t"
    and "sys_inflight s j = Some c"
  shows "tab_of c \<noteq> t"
proof
  assume "tab_of c = t"
  then have "sys_inflight s j = Some c \<and> tab_of c \<notin> sys_gone s" using assms by simp
  then have "locked (sys_state s) (tab_of c)"
    using assms(1) unfolding holder_locked_def by blast
  then show False using assms(3) \<open>tab_of c = t\<close> by simp
qed

text \<open>Each step of the system keeps the discipline. The cases follow the rules of
  \<open>step\<close>, and within a rule the ways the stretch can end.\<close>

lemma step_discipline:
  assumes "step parse s s'" and inv: "lock_discipline s"
  shows "lock_discipline s'"
  using assms(1)
proof cases
  case (enter i d e' out)
  have hl: "holder_locked s" using inv by (simp add: lock_discipline_def)
  let ?t = "d_tabId d"
  let ?L = "navigationLocks (sys_state s)"
  consider
      (skipped) "e' = sys_state s" "out = Finished"
    | (filtered) "navigationLocks e' = Map_delete ?t (Map_set ?t True ?L)" "out = Finished"
        "\<not> locked (sys_state s) ?t"
    | (passed) "navigationLocks e' = Map_set ?t True ?L" "out = Suspended (AwaitGet d)"
        "\<not> locked (sys_state s) ?t"
    using nav_enter_cases [of "sys_state s" d] enter(4) by (auto simp: release_def)
  then show ?thesis
  proof cases
    case skipped
    then have "s' = s" using enter by simp
    then show ?thesis using inv by simp
  next
    case filtered
    have free: "\<And>j c. sys_inflight s j = Some c \<Longrightarrow> tab_of c \<noteq> ?t"
      using unlocked_free [OF hl enter(3) filtered(3)] .
    have 1: "one_per_tab s'" using inv enter filtered
      by (simp add: lock_discipline_def one_per_tab_def)
    have 2: "holder_locked s'" using inv enter filtered free
      by (auto simp: lock_discipline_def holder_locked_def locked_map_of
          map_of_Map_set map_of_Map_delete)
    have 3: "lock_has_holder s'" using inv enter filtered
      by (auto simp: lock_discipline_def lock_has_holder_def Map_has_def
          map_of_Map_set map_of_Map_delete)
    show ?thesis using 1 2 3 by (simp add: lock_discipline_def)
  next
    case passed
    have free: "\<And>j c. sys_inflight s j = Some c \<Longrightarrow> tab_of c \<noteq> ?t"
      using unlocked_free [OF hl enter(3) passed(3)] .
    have fl: "sys_inflight s' = (sys_inflight s)(i \<mapsto> AwaitGet d)"
      using enter passed by simp
    have tg: "tab_of (AwaitGet d) = ?t" by (simp add: tab_of_def)
    have op: "one_per_tab s" using inv by (simp add: lock_discipline_def)
    have 1: "one_per_tab s'"
      unfolding one_per_tab_def
    proof (intro allI impI)
      fix a b ca cb
      assume h: "sys_inflight s' a = Some ca \<and> sys_inflight s' b = Some cb \<and>
        tab_of ca = tab_of cb"
      show "a = b"
      proof (cases "a = i")
        case True
        then have ca: "tab_of ca = ?t" using h fl tg by auto
        show ?thesis
        proof (cases "b = i")
          case True
          then show ?thesis using \<open>a = i\<close> by simp
        next
          case False
          then have "sys_inflight s b = Some cb" using h fl by simp
          then have "tab_of cb \<noteq> ?t" by (rule free)
          then show ?thesis using h ca by simp
        qed
      next
        case False
        then have a: "sys_inflight s a = Some ca" using h fl by simp
        show ?thesis
        proof (cases "b = i")
          case True
          then have "tab_of cb = ?t" using h fl tg by auto
          moreover have "tab_of ca \<noteq> ?t" using a by (rule free)
          ultimately show ?thesis using h by simp
        next
          case False
          then have "sys_inflight s b = Some cb" using h fl by simp
          then show ?thesis using a h op unfolding one_per_tab_def by blast
        qed
      qed
    qed
    have 2: "holder_locked s'"
      unfolding holder_locked_def
    proof (intro allI impI)
      fix a c
      assume h: "sys_inflight s' a = Some c \<and> tab_of c \<notin> sys_gone s'"
      have g: "sys_gone s' = sys_gone s" using enter by simp
      have lk: "\<And>t. locked (sys_state s) t \<or> t = ?t \<Longrightarrow> locked (sys_state s') t"
        using enter passed by (auto simp: locked_map_of map_of_Map_set)
      show "locked (sys_state s') (tab_of c)"
      proof (cases "a = i")
        case True
        then have "tab_of c = ?t" using h fl tg by auto
        then show ?thesis using lk by simp
      next
        case False
        then have "sys_inflight s a = Some c \<and> tab_of c \<notin> sys_gone s" using h fl g by simp
        then have "locked (sys_state s) (tab_of c)" using hl unfolding holder_locked_def by blast
        then show ?thesis using lk by simp
      qed
    qed
    have 3: "lock_has_holder s'"
      unfolding lock_has_holder_def
    proof (intro allI impI)
      fix t assume h: "Map_has t (navigationLocks (sys_state s'))"
      show "\<exists>j c. sys_inflight s' j = Some c \<and> tab_of c = t"
      proof (cases "t = ?t")
        case True
        then have "sys_inflight s' i = Some (AwaitGet d) \<and> tab_of (AwaitGet d) = t"
          using fl tg by simp
        then show ?thesis by blast
      next
        case False
        then have "Map_has t ?L" using h enter passed by (simp add: Map_has_def map_of_Map_set)
        then obtain j c where jc: "sys_inflight s j = Some c" "tab_of c = t"
          using inv by (auto simp: lock_discipline_def lock_has_holder_def)
        then have "j \<noteq> i" using enter(2) by auto
        then have "sys_inflight s' j = Some c" using jc fl by simp
        then show ?thesis using jc by blast
      qed
    qed
    show ?thesis using 1 2 3 by (simp add: lock_discipline_def)
  qed
next
  case (continue i c rs e' out)
  let ?L = "navigationLocks (sys_state s)"
  consider
      (ended) "out = Finished" "navigationLocks e' = Map_delete (tab_of c) ?L"
    | (goes_on) c' where "out = Suspended c'" "tab_of c' = tab_of c" "navigationLocks e' = ?L"
    using resume_cases [OF continue(3)] by blast
  then show ?thesis
  proof cases
    case ended
    have others: "\<And>j c'. j \<noteq> i \<Longrightarrow> sys_inflight s j = Some c' \<Longrightarrow> tab_of c' \<noteq> tab_of c"
      using inv continue(2) by (auto simp: lock_discipline_def one_per_tab_def)
    have 1: "one_per_tab s'" using inv continue ended
      by (auto simp: lock_discipline_def one_per_tab_def split: if_splits)
    have 2: "holder_locked s'" using inv continue ended others
      by (auto simp: lock_discipline_def holder_locked_def locked_map_of
          map_of_Map_delete split: if_splits)
    have 3: "lock_has_holder s'"
      unfolding lock_has_holder_def
    proof (intro allI impI)
      fix t assume h: "Map_has t (navigationLocks (sys_state s'))"
      then have t: "t \<noteq> tab_of c" "Map_has t ?L"
        using continue ended by (auto simp: Map_has_def map_of_Map_delete split: if_splits)
      then obtain j c' where jc: "sys_inflight s j = Some c'" "tab_of c' = t"
        using inv by (auto simp: lock_discipline_def lock_has_holder_def)
      then have "j \<noteq> i" using continue(2) t by auto
      then have "sys_inflight s' j = Some c'" using jc continue by simp
      then show "\<exists>j c. sys_inflight s' j = Some c \<and> tab_of c = t" using jc by blast
    qed
    show ?thesis using 1 2 3 by (simp add: lock_discipline_def)
  next
    case goes_on
    have 1: "one_per_tab s'" using inv continue goes_on
      by (auto simp: lock_discipline_def one_per_tab_def split: if_splits)
    have 2: "holder_locked s'" using inv continue goes_on
      by (auto simp: lock_discipline_def holder_locked_def locked_map_of split: if_splits)
    have 3: "lock_has_holder s'"
      unfolding lock_has_holder_def
    proof (intro allI impI)
      fix t assume h: "Map_has t (navigationLocks (sys_state s'))"
      then have "Map_has t ?L" using continue goes_on by simp
      then obtain j c0 where jc: "sys_inflight s j = Some c0" "tab_of c0 = t"
        using inv by (auto simp: lock_discipline_def lock_has_holder_def)
      show "\<exists>j c. sys_inflight s' j = Some c \<and> tab_of c = t"
      proof (cases "j = i")
        case True
        then have "sys_inflight s' i = Some c' \<and> tab_of c' = t"
          using jc continue goes_on by simp
        then show ?thesis by blast
      next
        case False
        then have "sys_inflight s' j = Some c0" using jc continue by simp
        then show ?thesis using jc by blast
      qed
    qed
    show ?thesis using 1 2 3 by (simp add: lock_discipline_def)
  qed
next
  case (removed ok sto t e' sto' r)
  have L: "navigationLocks e' = navigationLocks (sys_state s) \<or>
           navigationLocks e' = Map_delete t (navigationLocks (sys_state s))"
    using onRemoved_locks [OF removed(2)] .
  have 1: "one_per_tab s'" using inv removed
    by (simp add: lock_discipline_def one_per_tab_def)
  have 2: "holder_locked s'" using inv removed L
    by (auto simp: lock_discipline_def holder_locked_def locked_map_of map_of_Map_delete)
  have 3: "lock_has_holder s'" using inv removed L
    by (auto simp: lock_discipline_def lock_has_holder_def Map_has_def map_of_Map_delete
        split: if_splits)
  show ?thesis using 1 2 3 by (simp add: lock_discipline_def)
next
  case (other e')
  then show ?thesis using inv
    by (auto simp: lock_discipline_def one_per_tab_def holder_locked_def lock_has_holder_def
        locked_map_of)
qed

lemma reachable_discipline: "reachable parse s \<Longrightarrow> lock_discipline s"
proof (induction rule: reachable.induct)
  case (start e)
  then show ?case
    by (simp add: lock_discipline_def one_per_tab_def holder_locked_def lock_has_holder_def
        Map_has_def)
next
  case (later s s')
  then show ?case using step_discipline by blast
qed

text \<open>One invocation that has passed the lock check, followed to its end.\<close>

lemma advance_settled: "lock_settled t x \<Longrightarrow> lock_settled t (advance parse rs x)"
proof -
  assume a: "lock_settled t x"
  obtain st calls out where x: "x = (st, calls, out)" by (cases x) auto
  show ?thesis
  proof (cases out)
    case Finished
    then show ?thesis using a x by (simp add: advance_def)
  next
    case (Suspended c)
    obtain e' out' where r: "resume parse rs st c = (e', out')"
      by (cases "resume parse rs st c") auto
    have t: "tab_of c = t" using a x Suspended by (simp add: lock_settled_def)
    have "advance parse rs x = (e', calls @ [call_of c], out')"
      using x Suspended r by (simp add: advance_def)
    moreover have "lock_settled t (e', calls @ [call_of c], out')"
      using resume_cases [OF r] t
      by (auto simp: lock_settled_def Map_has_def map_of_Map_delete)
    ultimately show ?thesis by simp
  qed
qed

lemma nav_enter_settled:
  "\<not> locked st (d_tabId d) \<Longrightarrow>
   lock_settled (d_tabId d) (fst (nav_enter st d), calls, snd (nav_enter st d))"
  using nav_enter_cases [of st d]
  by (auto simp: lock_settled_def release_def Map_has_def map_of_Map_delete tab_of_def)

lemma onBeforeNavigate_releases:
  assumes "\<not> locked st (d_tabId d)"
  shows "\<not> Map_has (d_tabId d) (navigationLocks (fst (onBeforeNavigate parse rs st d)))"
proof -
  obtain st0 out0 where e: "nav_enter st d = (st0, out0)" by (cases "nav_enter st d") auto
  have "lock_settled (d_tabId d) (st0, [], out0)"
    using nav_enter_settled [OF assms, of "[]"] e by simp
  then have "lock_settled (d_tabId d) (onBeforeNavigate parse rs st d)"
    using e by (simp add: onBeforeNavigate_def advance_settled)
  then show ?thesis using onBeforeNavigate_finishes [of parse rs st d]
    by (simp add: lock_settled_def)
qed

lemma enter7: "nav_enter session7 click_shop = (locked7, Suspended (AwaitGet click_shop))"
  by (simp add: nav_enter_def session7_def click_shop_def locked7_def locked_def Map_get_def
      Map_has_def)

lemma reachable7: "reachable parse system7"
proof -
  let ?s0 = "\<lparr>sys_state = session7, sys_inflight = (\<lambda>i. None), sys_gone = {}\<rparr>"
  have "reachable parse ?s0" by (rule reachable.start) (simp add: session7_def)
  moreover have "step parse ?s0
       (?s0\<lparr>sys_state := locked7,
            sys_inflight :=
              (case Suspended (AwaitGet click_shop) of Finished \<Rightarrow> sys_inflight ?s0
               | Suspended c \<Rightarrow> (sys_inflight ?s0)(0 \<mapsto> c))\<rparr>)"
    by (rule step.enter [where d = click_shop]) (simp_all add: enter7)
  ultimately have "reachable parse
       (?s0\<lparr>sys_state := locked7,
            sys_inflight :=
              (case Suspended (AwaitGet click_shop) of Finished \<Rightarrow> sys_inflight ?s0
               | Suspended c \<Rightarrow> (sys_inflight ?s0)(0 \<mapsto> c))\<rparr>)"
    by (rule reachable.later)
  then show ?thesis by (simp add: system7_def)
qed

text \<open>
  The scenario with two events for tab 7. The invocation for the click on the shop link
  passes the lock check and waits for \<^verbatim>\<open>tabs.get\<close> with the lock of tab 7 held.
  A second navigation event for tab 7 arrives: its invocation returns at the check,
  before the \<^verbatim>\<open>try\<close> statement, and changes no state, so the lock of tab 7 stays
  with the first invocation, whose \<^verbatim>\<open>finally\<close> block will release it.
\<close>

lemma turned_away_changes_nothing:
  "nav_enter session7 click_shop = (locked7, Suspended (AwaitGet click_shop)) \<and>
   onBeforeNavigate URL_simple replies7 locked7 reload_inbox = (locked7, [], Finished) \<and>
   Map_has 7 (navigationLocks locked7)"
proof -
  have "locked locked7 (d_tabId reload_inbox)"
    by (simp add: locked7_def locked_def Map_get_def reload_inbox_def)
  then have "onBeforeNavigate URL_simple replies7 locked7 reload_inbox = (locked7, [], Finished)"
    by (simp add: nav_enter_locked onBeforeNavigate_stopped)
  then show ?thesis using enter7 by (simp add: locked7_def Map_has_def)
qed

text \<open>
  C3. For every tab id, when two invocations of the navigation interceptor for that tab
  id interleave, at most one is past the lock check: while one is suspended, the other
  returns at the lock check and changes no state. After an invocation that went past
  the check has completed, whether it returned early inside the \<^verbatim>\<open>try\<close>
  statement, ran to the end or caught an error, the lock map has no entry for its tab
  id; such an invocation always completes, and the same holds for each stretch that
  ends an invocation, whatever ran in between. In the system of interleaved listeners
  this is the lock discipline, which every reachable state has, under every
  interleaving and every answer of the host: no two suspended invocations work on the
  same tab id, and a lock is held exactly for the tabs of suspended invocations (a tab
  the host has closed apart, whose lock the removal listener may have deleted).
\<close>

theorem lock_discipline_kept:
  "(reachable parse s \<longrightarrow> lock_discipline s) \<and>
   (reachable parse s \<and> sys_inflight s i = Some c \<and> tab_of c = d_tabId d \<and>
      d_tabId d \<notin> sys_gone s \<longrightarrow>
      nav_enter (sys_state s) d = (sys_state s, Finished) \<and>
      onBeforeNavigate parse rs (sys_state s) d = (sys_state s, [], Finished)) \<and>
   (locked st (d_tabId d) \<longrightarrow> onBeforeNavigate parse rs st d = (st, [], Finished)) \<and>
   (\<not> locked st (d_tabId d) \<longrightarrow>
      snd (snd (onBeforeNavigate parse rs st d)) = Finished \<and>
      \<not> Map_has (d_tabId d) (navigationLocks (fst (onBeforeNavigate parse rs st d)))) \<and>
   (snd (resume parse rs st c) = Finished \<longrightarrow>
      \<not> Map_has (tab_of c) (navigationLocks (fst (resume parse rs st c))))"
proof (intro conjI impI)
  show "lock_discipline s" if "reachable parse s" using that by (rule reachable_discipline)
next
  assume a: "reachable parse s \<and> sys_inflight s i = Some c \<and> tab_of c = d_tabId d \<and>
      d_tabId d \<notin> sys_gone s"
  then have "lock_discipline s" using reachable_discipline by blast
  then have "holder_locked s" by (simp add: lock_discipline_def)
  then have "locked (sys_state s) (tab_of c)" using a unfolding holder_locked_def by metis
  then have l: "locked (sys_state s) (d_tabId d)" using a by simp
  then show "nav_enter (sys_state s) d = (sys_state s, Finished)" by (rule nav_enter_locked)
  then show "onBeforeNavigate parse rs (sys_state s) d = (sys_state s, [], Finished)"
    by (rule onBeforeNavigate_stopped)
next
  assume "locked st (d_tabId d)"
  then show "onBeforeNavigate parse rs st d = (st, [], Finished)"
    by (simp add: nav_enter_locked onBeforeNavigate_stopped)
next
  assume "\<not> locked st (d_tabId d)"
  then show "\<not> Map_has (d_tabId d) (navigationLocks (fst (onBeforeNavigate parse rs st d)))"
    by (rule onBeforeNavigate_releases)
next
  show "snd (snd (onBeforeNavigate parse rs st d)) = Finished"
    by (rule onBeforeNavigate_finishes)
next
  assume a: "snd (resume parse rs st c) = Finished"
  obtain e' out where r: "resume parse rs st c = (e', out)" by (cases "resume parse rs st c") auto
  show "\<not> Map_has (tab_of c) (navigationLocks (fst (resume parse rs st c)))"
    using resume_cases [OF r] a r by (auto simp: Map_has_def map_of_Map_delete)
qed

theorem lock_discipline_kept_witness:
  "reachable URL_simple system7 \<and> sys_inflight system7 0 = Some (AwaitGet click_shop) \<and>
   locked (sys_state system7) 7 \<and>
   onBeforeNavigate URL_simple replies7 (sys_state system7) reload_inbox =
     (sys_state system7, [], Finished) \<and>
   \<not> locked session7 7 \<and>
   snd (snd (onBeforeNavigate URL_simple replies7 session7 click_shop)) = Finished \<and>
   \<not> Map_has 7 (navigationLocks (fst (onBeforeNavigate URL_simple replies7 session7 click_shop)))"
proof -
  have r: "reachable URL_simple system7" by (rule reachable7)
  have f: "sys_inflight system7 0 = Some (AwaitGet click_shop)" by (simp add: system7_def)
  have t: "tab_of (AwaitGet click_shop) = d_tabId reload_inbox"
    by (simp add: tab_of_def click_shop_def reload_inbox_def)
  have g: "d_tabId reload_inbox \<notin> sys_gone system7" by (simp add: system7_def)
  have l: "locked (sys_state system7) 7"
    by (simp add: system7_def locked7_def locked_def Map_get_def)
  have n: "\<not> locked session7 (d_tabId click_shop)"
    by (simp add: session7_def locked_def Map_get_def)
  have c: "d_tabId click_shop = 7" by (simp add: click_shop_def)
  show ?thesis
    using r f t g l n
      lock_discipline_kept [of URL_simple system7 0 "AwaitGet click_shop" reload_inbox replies7
        session7]
      lock_discipline_kept [of URL_simple system7 0 "AwaitGet click_shop" click_shop replies7
        session7]
    by (simp add: c)
qed

section \<open>The registry invariant\<close>

lemma same_id:
  "distinct (map tab_id H) \<Longrightarrow> x \<in> set H \<Longrightarrow> y \<in> set H \<Longrightarrow> tab_id y = tab_id x \<Longrightarrow> y = x"
  by (meson distinct_map inj_onD)

text \<open>The ids of the host's tabs with a property, after one tab's record changed.\<close>

lemma ids_after_change:
  assumes d: "distinct (map tab_id H)" and x: "x \<in> set H" and f: "tab_id (f x) = tab_id x"
  shows "tab_id ` set (filter P (map (\<lambda>y. if tab_id y = tab_id x then f y else y) H)) =
     (tab_id ` set (filter P H) - {tab_id x}) \<union> (if P (f x) then {tab_id x} else {})"
    (is "?L = ?R")
proof (rule set_eqI)
  fix i
  let ?g = "\<lambda>y. if tab_id y = tab_id x then f y else y"
  have only: "\<And>y. y \<in> set H \<Longrightarrow> tab_id y = tab_id x \<Longrightarrow> y = x"
    using same_id [OF d x] by simp
  show "i \<in> ?L \<longleftrightarrow> i \<in> ?R"
  proof (cases "i = tab_id x")
    case True
    have "i \<in> ?L \<longleftrightarrow> P (f x)"
    proof
      assume "i \<in> ?L"
      then obtain y where y: "y \<in> set H" "P (?g y)" "tab_id (?g y) = i" by auto
      then have "tab_id y = tab_id x" using True f by (auto split: if_splits)
      then have "y = x" using y only by simp
      then show "P (f x)" using y by simp
    next
      assume "P (f x)"
      then have "x \<in> set H \<and> P (?g x) \<and> tab_id (?g x) = i" using x f True by simp
      then show "i \<in> ?L" by force
    qed
    then show ?thesis using True by simp
  next
    case False
    have "i \<in> ?L \<longleftrightarrow> i \<in> tab_id ` set (filter P H)"
    proof
      assume "i \<in> ?L"
      then obtain y where y: "y \<in> set H" "P (?g y)" "tab_id (?g y) = i" by auto
      then have "tab_id y \<noteq> tab_id x" using False f only by (auto split: if_splits)
      then have "y \<in> set H \<and> P y \<and> tab_id y = i" using y by simp
      then show "i \<in> tab_id ` set (filter P H)" by force
    next
      assume "i \<in> tab_id ` set (filter P H)"
      then obtain y where y: "y \<in> set H" "P y" "tab_id y = i" by auto
      then have "y \<in> set H \<and> P (?g y) \<and> tab_id (?g y) = i" using False by simp
      then show "i \<in> ?L" by force
    qed
    then show ?thesis using False by simp
  qed
qed

lemma distinct_after_change:
  "(\<And>y. tab_id (f y) = tab_id y) \<Longrightarrow>
   map tab_id (map (\<lambda>y. if tab_id y = t then f y else y) H) = map tab_id H"
  by (induction H) auto

text \<open>What each listener does to the registry.\<close>

lemma keys_foldl_add_pinned:
  "fst ` set (foldl add_pinned m L) =
     fst ` set m \<union>
     tab_id ` set (filter (\<lambda>x. tab_url x \<noteq> [] \<and> tab_url x \<noteq> ''about:blank'') L)"
  by (induction L arbitrary: m) (auto simp: add_pinned_def keys_Map_set)

lemma onUpdated_pin_registry:
  "pinnedTabs (fst (onUpdated ok1 ok2 st sto t \<lparr>ci_pinned = Some b, ci_url = None\<rparr> x)) =
     (if b \<and> tab_url x \<noteq> ''about:blank'' then Map_set t (tab_url x) (pinnedTabs st)
      else Map_delete t (pinnedTabs st))"
  by (simp add: onUpdated_def onUpdated_pinned_def onUpdated_url_def savePinnedTabs_def Let_def)

lemma onUpdated_url_registry:
  "pinnedTabs (fst (onUpdated ok1 ok2 st sto t \<lparr>ci_pinned = None, ci_url = Some u\<rparr> x)) =
     (if u \<noteq> [] \<and> tab_pinned x \<and> tab_url x \<noteq> ''about:blank''
      then Map_set t (tab_url x) (pinnedTabs st) else pinnedTabs st)"
  by (simp add: onUpdated_def onUpdated_pinned_def onUpdated_url_def savePinnedTabs_def Let_def)

lemma onRemoved_registry:
  "fst ` set (pinnedTabs (fst (onRemoved ok st sto t))) = fst ` set (pinnedTabs st) - {t}"
  by (auto simp: onRemoved_def savePinnedTabs_def Let_def keys_Map_delete Map_has_keys)

lemma initializeExtension_registry:
  "pinnedTabs (fst (initializeExtension g q s st sto)) =
     (case q of Resolved L \<Rightarrow> if g then foldl add_pinned [] L else pinnedTabs st
      | Rejected \<Rightarrow> pinnedTabs st)"
  by (simp add: initializeExtension_def savePinnedTabs_def Let_def split: reply.splits)

text \<open>The steps of the world, one by one.\<close>

lemma pin_changed_bounds:
  assumes inv: "registry_bounds w" and x: "x \<in> set (host_tabs w)"
    and h: "host_tabs w' =
      map (\<lambda>y. if tab_id y = tab_id x then y\<lparr>tab_pinned := b\<rparr> else y) (host_tabs w)"
    and s: "script w' =
      fst (onUpdated ok1 ok2 (script w) (storage w) (tab_id x)
        \<lparr>ci_pinned = Some b, ci_url = None\<rparr> (x\<lparr>tab_pinned := b\<rparr>))"
  shows "registry_bounds w'"
proof -
  let ?Q = "\<lambda>x. tab_pinned x \<and> tab_url x \<noteq> [] \<and> tab_url x \<noteq> ''about:blank''"
  have d: "distinct (map tab_id (host_tabs w))" using inv by (simp add: registry_bounds_def)
  have reg: "registered w' =
      (if b \<and> tab_url x \<noteq> ''about:blank'' then insert (tab_id x) (registered w)
       else registered w - {tab_id x})"
    using s by (simp add: onUpdated_pin_registry registered_def keys_Map_set keys_Map_delete)
  have pin: "host_ids tab_pinned w' =
      (host_ids tab_pinned w - {tab_id x}) \<union> (if b then {tab_id x} else {})"
    using ids_after_change [OF d x, of "\<lambda>y. y\<lparr>tab_pinned := b\<rparr>" tab_pinned] h
    by (simp add: host_ids_def)
  have shown: "host_ids ?Q w' =
      (host_ids ?Q w - {tab_id x}) \<union>
      (if b \<and> tab_url x \<noteq> [] \<and> tab_url x \<noteq> ''about:blank'' then {tab_id x} else {})"
    using ids_after_change [OF d x, of "\<lambda>y. y\<lparr>tab_pinned := b\<rparr>" ?Q] h
    by (simp add: host_ids_def)
  have "map tab_id (host_tabs w') = map tab_id (host_tabs w)"
    unfolding h by (rule distinct_after_change) simp
  then have 1: "distinct (map tab_id (host_tabs w'))" using d by (simp only:)
  have 2: "registered w' \<subseteq> host_ids tab_pinned w'"
    using inv reg pin by (auto simp: registry_bounds_def split: if_splits)
  have 3: "host_ids ?Q w' \<subseteq> registered w'"
    using inv reg shown by (auto simp: registry_bounds_def split: if_splits)
  show ?thesis using 1 2 3 by (simp add: registry_bounds_def)
qed

lemma url_changed_bounds:
  assumes inv: "registry_bounds w" and x: "x \<in> set (host_tabs w)"
    and h: "host_tabs w' =
      map (\<lambda>y. if tab_id y = tab_id x then y\<lparr>tab_url := u\<rparr> else y) (host_tabs w)"
    and s: "script w' =
      fst (onUpdated ok1 ok2 (script w) (storage w) (tab_id x)
        \<lparr>ci_pinned = None, ci_url = Some u\<rparr> (x\<lparr>tab_url := u\<rparr>))"
  shows "registry_bounds w'"
proof -
  let ?Q = "\<lambda>x. tab_pinned x \<and> tab_url x \<noteq> [] \<and> tab_url x \<noteq> ''about:blank''"
  have d: "distinct (map tab_id (host_tabs w))" using inv by (simp add: registry_bounds_def)
  have reg: "registered w' =
      (if u \<noteq> [] \<and> tab_pinned x \<and> u \<noteq> ''about:blank'' then insert (tab_id x) (registered w)
       else registered w)"
    using s by (simp add: onUpdated_url_registry registered_def keys_Map_set)
  have pin: "host_ids tab_pinned w' =
      (host_ids tab_pinned w - {tab_id x}) \<union> (if tab_pinned x then {tab_id x} else {})"
    using ids_after_change [OF d x, of "\<lambda>y. y\<lparr>tab_url := u\<rparr>" tab_pinned] h
    by (simp add: host_ids_def)
  have shown: "host_ids ?Q w' =
      (host_ids ?Q w - {tab_id x}) \<union>
      (if tab_pinned x \<and> u \<noteq> [] \<and> u \<noteq> ''about:blank'' then {tab_id x} else {})"
    using ids_after_change [OF d x, of "\<lambda>y. y\<lparr>tab_url := u\<rparr>" ?Q] h
    by (simp add: host_ids_def)
  have was: "tab_pinned x \<Longrightarrow> tab_id x \<in> host_ids tab_pinned w"
    using x by (force simp: host_ids_def)
  have still: "\<not> tab_pinned x \<Longrightarrow> tab_id x \<notin> host_ids tab_pinned w"
    using same_id [OF d x] by (auto simp: host_ids_def)
  have "map tab_id (host_tabs w') = map tab_id (host_tabs w)"
    unfolding h by (rule distinct_after_change) simp
  then have 1: "distinct (map tab_id (host_tabs w'))" using d by (simp only:)
  have 2: "registered w' \<subseteq> host_ids tab_pinned w'"
    using inv reg pin was still by (auto simp: registry_bounds_def split: if_splits)
  have 3: "host_ids ?Q w' \<subseteq> registered w'"
    using inv reg shown by (auto simp: registry_bounds_def split: if_splits)
  show ?thesis using 1 2 3 by (simp add: registry_bounds_def)
qed

lemma tab_closed_bounds:
  assumes inv: "registry_bounds w"
    and h: "host_tabs w' = filter (\<lambda>y. tab_id y \<noteq> t) (host_tabs w)"
    and s: "script w' = fst (onRemoved ok (script w) (storage w) t)"
  shows "registry_bounds w'"
proof -
  have reg: "registered w' = registered w - {t}"
    using s by (simp add: onRemoved_registry registered_def)
  have ids: "\<And>P. host_ids P w' = host_ids P w - {t}"
    using h by (auto simp: host_ids_def)
  have 1: "distinct (map tab_id (host_tabs w'))"
    using inv h by (simp add: registry_bounds_def distinct_map_filter)
  have 2: "registered w' \<subseteq> host_ids tab_pinned w'"
    using inv reg ids [of tab_pinned] by (auto simp: registry_bounds_def)
  have 3: "host_ids (\<lambda>x. tab_pinned x \<and> tab_url x \<noteq> [] \<and> tab_url x \<noteq> ''about:blank'') w'
      \<subseteq> registered w'"
    using inv reg
      ids [of "\<lambda>x. tab_pinned x \<and> tab_url x \<noteq> [] \<and> tab_url x \<noteq> ''about:blank''"]
    by (auto simp: registry_bounds_def)
  show ?thesis using 1 2 3 by (simp add: registry_bounds_def)
qed

lemma tab_opened_bounds:
  assumes inv: "registry_bounds w" and "tab_id x \<notin> tab_id ` set (host_tabs w)"
    and "\<not> tab_pinned x" and h: "host_tabs w' = host_tabs w @ [x]" and s: "script w' = script w"
  shows "registry_bounds w'"
proof -
  have ids: "\<And>P. (\<And>y. P y \<Longrightarrow> tab_pinned y) \<Longrightarrow> host_ids P w' = host_ids P w"
    using h assms(3) by (auto simp: host_ids_def)
  have reg: "registered w' = registered w" using s by (simp add: registered_def)
  have 1: "distinct (map tab_id (host_tabs w'))"
    using inv h assms(2) by (simp add: registry_bounds_def)
  show ?thesis using inv reg 1 ids [of tab_pinned]
      ids [of "\<lambda>x. tab_pinned x \<and> tab_url x \<noteq> [] \<and> tab_url x \<noteq> ''about:blank''"]
    by (simp add: registry_bounds_def)
qed

lemma initialized_registered:
  "fst ` set (foldl add_pinned [] (filter tab_pinned H)) =
     tab_id ` set (filter (\<lambda>x. tab_pinned x \<and> tab_url x \<noteq> [] \<and> tab_url x \<noteq> ''about:blank'') H)"
  by (simp add: keys_foldl_add_pinned conj_commute)

lemma initialized_bounds:
  assumes d: "distinct (map tab_id (host_tabs w))"
    and h: "host_tabs w' = host_tabs w"
    and s: "script w' =
      fst (initializeExtension True (Resolved (filter tab_pinned (host_tabs w))) set_ok
        (script w) (storage w))"
  shows "registry_bounds w' \<and>
    registered w' =
      host_ids (\<lambda>x. tab_pinned x \<and> tab_url x \<noteq> [] \<and> tab_url x \<noteq> ''about:blank'') w'"
proof -
  have reg: "registered w' =
      host_ids (\<lambda>x. tab_pinned x \<and> tab_url x \<noteq> [] \<and> tab_url x \<noteq> ''about:blank'') w'"
    using s h by (simp add: registered_def host_ids_def initializeExtension_registry
        initialized_registered)
  have "host_ids (\<lambda>x. tab_pinned x \<and> tab_url x \<noteq> [] \<and> tab_url x \<noteq> ''about:blank'') w'
      \<subseteq> host_ids tab_pinned w'"
    by (auto simp: host_ids_def)
  then show ?thesis using reg d h by (simp add: registry_bounds_def)
qed

lemma world_step_bounds:
  assumes "world_step w w'" and inv: "registry_bounds w"
  shows "registry_bounds w'"
  using assms(1)
proof cases
  case (pin_changed x t ok1 ok2 b e' sto' r)
  show ?thesis
    by (rule pin_changed_bounds [OF inv pin_changed(2), of w' b ok1 ok2])
      (use pin_changed in simp_all)
next
  case (url_changed x t ok1 ok2 u e' sto' r)
  show ?thesis
    by (rule url_changed_bounds [OF inv url_changed(2), of w' u ok1 ok2])
      (use url_changed in simp_all)
next
  case (tab_closed ok t e' sto' r)
  show ?thesis
    by (rule tab_closed_bounds [OF inv, of w' t ok]) (use tab_closed in simp_all)
next
  case (tab_opened x)
  show ?thesis
    by (rule tab_opened_bounds [OF inv tab_opened(2,3)]) (use tab_opened in simp_all)
next
  case (initialized queried get_ok set_ok e' sto')
  have h: "host_tabs w' = host_tabs w" using initialized by simp
  have d: "distinct (map tab_id (host_tabs w))" using inv by (simp add: registry_bounds_def)
  show ?thesis
  proof (cases "get_ok \<and> queried \<noteq> Rejected")
    case True
    then have "script w' =
      fst (initializeExtension True (Resolved (filter tab_pinned (host_tabs w))) set_ok
        (script w) (storage w))"
      using initialized by auto
    then show ?thesis using initialized_bounds [OF d h] by simp
  next
    case False
    then have "pinnedTabs (script w') = pinnedTabs (script w)"
      using initialized
        initializeExtension_registry [of get_ok queried set_ok "script w" "storage w"]
      by (auto split: reply.splits)
    then show ?thesis using inv h
      by (simp add: registry_bounds_def host_ids_def registered_def)
  qed
next
  case (intercepted e')
  then show ?thesis using inv
    by (simp add: registry_bounds_def host_ids_def registered_def)
qed

lemma world7_blank_step: "world_step world7 world7_blank"
proof -
  have "onUpdated True True (script world7) (storage world7) 7
       \<lparr>ci_pinned = None, ci_url = Some ''about:blank''\<rparr> (tab7\<lparr>tab_url := ''about:blank''\<rparr>) =
     (session7, store7, Returned)"
    by (simp add: onUpdated_def onUpdated_pinned_def onUpdated_url_def world7_def)
  then have "world_step world7
     \<lparr>host_tabs =
        map (\<lambda>y. if tab_id y = 7 then y\<lparr>tab_url := ''about:blank''\<rparr> else y) (host_tabs world7),
      script = session7, storage = store7\<rparr>"
    by (intro world_step.url_changed [where x = tab7]) (simp_all add: world7_def tab7_def)
  then show ?thesis by (simp add: world7_def world7_blank_def tab7_def)
qed

text \<open>
  C2, as it is stated, fails for the URL change. Tab 7 is pinned at the inbox and
  registered, and the invariant holds. The tab navigates to \<^verbatim>\<open>about:blank\<close>; the
  interceptor is not asked, since it listens to http and https URLs only. The host
  sends the update notification with the new URL, and the second \<^verbatim>\<open>if\<close> of the
  listener skips a blank URL, so the registry keeps the entry of tab 7 with the inbox.
  Now the host reports tab 7 as pinned with the blank URL and the registry has an entry
  for it.
\<close>

theorem blank_navigation_breaks_exactness:
  "registry_exact world7 \<and> world_step world7 world7_blank \<and> \<not> registry_exact world7_blank \<and>
   Map_get 7 (pinnedTabs (script world7_blank)) = Some inbox"
  using world7_blank_step
  by (simp add: registry_exact_def registered_def host_ids_def world7_def world7_blank_def
      session7_def tab7_def inbox_def Map_get_def)

text \<open>
  C2, amended. For every tab id, at every point where no listener is in the middle of
  its run: if the registry has an entry for the id, the host reports that tab as
  pinned; and if the host reports the tab as pinned with a URL that is neither missing
  nor \<^verbatim>\<open>about:blank\<close>, the registry has an entry for the id. Every step of the world
  keeps these two inclusions: a change of the pinned flag, a change of the URL, a closed
  tab, an opened tab, a call of \<^verbatim>\<open>initializeExtension\<close> and every stretch of the
  interceptor. A call of \<^verbatim>\<open>initializeExtension\<close> that the host answers establishes
  them, and then the registry holds exactly the pinned tabs with such a URL. A
  registered pinned tab that goes to \<^verbatim>\<open>about:blank\<close> stays registered.
\<close>

theorem registry_bounds_kept:
  "(registry_bounds w \<and> world_step w w' \<longrightarrow> registry_bounds w') \<and>
   (distinct (map tab_id (host_tabs w)) \<longrightarrow>
    registry_bounds
      (w\<lparr>script := fst (initializeExtension True (Resolved (filter tab_pinned (host_tabs w)))
            set_ok (script w) (storage w)),
         storage := snd (initializeExtension True (Resolved (filter tab_pinned (host_tabs w)))
            set_ok (script w) (storage w))\<rparr>) \<and>
    registered
      (w\<lparr>script := fst (initializeExtension True (Resolved (filter tab_pinned (host_tabs w)))
            set_ok (script w) (storage w))\<rparr>) =
      host_ids (\<lambda>x. tab_pinned x \<and> tab_url x \<noteq> [] \<and> tab_url x \<noteq> ''about:blank'') w)"
proof (intro conjI impI)
  assume "registry_bounds w \<and> world_step w w'"
  then show "registry_bounds w'" using world_step_bounds by blast
next
  assume d: "distinct (map tab_id (host_tabs w))"
  let ?i = "initializeExtension True (Resolved (filter tab_pinned (host_tabs w))) set_ok
      (script w) (storage w)"
  show "registry_bounds (w\<lparr>script := fst ?i, storage := snd ?i\<rparr>)"
    using initialized_bounds [OF d, of "w\<lparr>script := fst ?i, storage := snd ?i\<rparr>" set_ok]
    by simp
  show "registered (w\<lparr>script := fst ?i\<rparr>) =
      host_ids (\<lambda>x. tab_pinned x \<and> tab_url x \<noteq> [] \<and> tab_url x \<noteq> ''about:blank'') w"
    using initialized_bounds [OF d, of "w\<lparr>script := fst ?i\<rparr>" set_ok]
    by (simp add: host_ids_def)
qed

theorem registry_bounds_kept_witness:
  "registry_bounds world7 \<and> world_step world7 world7_blank \<and> registry_bounds world7_blank \<and>
   registered world7_blank = {7} \<and> host_ids tab_pinned world7_blank = {7}"
proof -
  have 1: "registry_bounds world7"
    by (simp add: registry_bounds_def registered_def host_ids_def world7_def session7_def
        tab7_def)
  have 2: "registered world7_blank = {7} \<and> host_ids tab_pinned world7_blank = {7}"
    by (simp add: registered_def host_ids_def world7_blank_def session7_def tab7_def)
  show ?thesis
    using 1 2 world7_blank_step registry_bounds_kept [of world7 world7_blank] by simp
qed

end
